theory Spec2Isabelle
  imports Complex_Main "HOL-Library.Sublist"
begin

section \<open>Strings as the program uses them\<close>

text \<open>
  The indexer works on Python \<open>str\<close> values. They are modelled as lists of 8-bit
  characters, read as the code points 0 to 255; the character classes below are the ones
  Python applies to these code points (\<open>str.isspace\<close> and the regular-expression classes
  \<open>\s\<close> and \<open>\w\<close> for \<open>str\<close> patterns, \<open>str.lower\<close>, the line boundaries of
  \<open>str.splitlines\<close>).
\<close>

definition is_space :: "char \<Rightarrow> bool" where
  "is_space c = (let n = (of_char c :: nat) in
     (9 \<le> n \<and> n \<le> 13) \<or> (28 \<le> n \<and> n \<le> 32) \<or> n = 133 \<or> n = 160)"

definition is_word :: "char \<Rightarrow> bool" where
  "is_word c = (let n = (of_char c :: nat) in
     (48 \<le> n \<and> n \<le> 57) \<or> (65 \<le> n \<and> n \<le> 90) \<or> n = 95 \<or> (97 \<le> n \<and> n \<le> 122) \<or>
     n = 170 \<or> n = 178 \<or> n = 179 \<or> n = 181 \<or> n = 185 \<or> n = 186 \<or>
     (188 \<le> n \<and> n \<le> 190) \<or> (192 \<le> n \<and> n \<le> 214) \<or> (216 \<le> n \<and> n \<le> 246) \<or>
     (248 \<le> n \<and> n \<le> 255))"

definition lower_char :: "char \<Rightarrow> char" where
  "lower_char c = (let n = (of_char c :: nat) in
     if (65 \<le> n \<and> n \<le> 90) \<or> (192 \<le> n \<and> n \<le> 222 \<and> n \<noteq> 215)
     then char_of (n + 32) else c)"

definition lower :: "string \<Rightarrow> string" where
  "lower s = map lower_char s"

text \<open>\<open>str.strip()\<close>: whitespace removed at both ends.\<close>

definition lstrip :: "string \<Rightarrow> string" where
  "lstrip s = dropWhile is_space s"

definition rstrip :: "string \<Rightarrow> string" where
  "rstrip s = rev (dropWhile is_space (rev s))"

definition strip :: "string \<Rightarrow> string" where
  "strip s = rstrip (lstrip s)"

text \<open>
  \<open>re.sub\<close> with a pattern \<open>[class]+\<close>: every maximal run of characters of the class is
  replaced by the replacement string, scanning from the left.
\<close>

function sub_runs :: "(char \<Rightarrow> bool) \<Rightarrow> string \<Rightarrow> string \<Rightarrow> string" where
  "sub_runs P r [] = []"
| "sub_runs P r (c # cs) =
     (if P c then r @ sub_runs P r (dropWhile P cs) else c # sub_runs P r cs)"
  by pat_completeness auto
termination
  by (relation "measure (\<lambda>(P, r, s). length s)") (auto simp: length_dropWhile_le less_Suc_eq_le)

section \<open>Anchors\<close>

text \<open>
  \<open>slugify\<close>: \<open>title.strip().lower()\<close>, then \<open>re.sub(r"[^\w\s-]", "", s)\<close>,
  \<open>re.sub(r"\s+", "-", s)\<close> and \<open>re.sub(r"-+", "-", s)\<close>.
\<close>

definition slug_keep :: "char \<Rightarrow> bool" where
  "slug_keep c = (is_word c \<or> is_space c \<or> c = CHR ''-'')"

definition slugify :: "string \<Rightarrow> string" where
  "slugify title =
     (let s = lower (strip title);
          s = filter slug_keep s;
          s = sub_runs is_space ''-'' s;
          s = sub_runs (\<lambda>c. c = CHR ''-'') ''-'' s
      in s)"

text \<open>
  The anchor as the specification words it, for comparison with \<open>slugify\<close>: lowercase,
  strip the characters that are neither word characters, whitespace nor hyphen, collapse
  whitespace runs to single hyphens, collapse repeated hyphens, trim leading and trailing
  hyphens.
\<close>

definition trim_hyphens :: "string \<Rightarrow> string" where
  "trim_hyphens s =
     rev (dropWhile (\<lambda>c. c = CHR ''-'') (rev (dropWhile (\<lambda>c. c = CHR ''-'') s)))"

definition slugify_as_specified :: "string \<Rightarrow> string" where
  "slugify_as_specified title =
     trim_hyphens (sub_runs (\<lambda>c. c = CHR ''-'') ''-''
       (sub_runs is_space ''-'' (filter slug_keep (lower title))))"

section \<open>Text normalizer\<close>

abbreviation NL :: char where "NL \<equiv> CHR 0x0A"
abbreviation CR :: char where "CR \<equiv> CHR 0x0D"

text \<open>\<open>str.split(sep)\<close> for a one-character separator, and \<open>sep.join(parts)\<close>.\<close>

fun split_on :: "char \<Rightarrow> string \<Rightarrow> string list" where
  "split_on d [] = [[]]"
| "split_on d (c # cs) =
     (if c = d then [] # split_on d cs
      else (case split_on d cs of [] \<Rightarrow> [[c]] | l # ls \<Rightarrow> (c # l) # ls))"

fun join :: "string \<Rightarrow> string list \<Rightarrow> string" where
  "join sep [] = []"
| "join sep [x] = x"
| "join sep (x # y # ys) = x @ sep @ join sep (y # ys)"

text \<open>\<open>list.index(x)\<close>: the first position of \<open>x\<close>, \<open>None\<close> where Python raises ValueError.\<close>

fun index_of :: "'a \<Rightarrow> 'a list \<Rightarrow> nat option" where
  "index_of x [] = None"
| "index_of x (y # ys) = (if y = x then Some 0 else map_option Suc (index_of x ys))"

definition strip_front_matter :: "string \<Rightarrow> string" where
  "strip_front_matter text =
     (if prefix ''---'' text then
        (let parts = split_on NL text in
         if length parts > 2 then
           (case index_of ''---'' (tl parts) of
              Some i \<Rightarrow> (let end = i + 1 in join [NL] (drop (end + 1) parts))
            | None \<Rightarrow> text)
         else text)
      else text)"

section \<open>Paragraph splitter\<close>

text \<open>
  \<open>str.splitlines()\<close>: a line ends at a line boundary (\<open>\r\n\<close> counts as one), the
  boundaries are dropped, and a text that ends with a boundary has no empty last line.
\<close>

definition is_linebreak :: "char \<Rightarrow> bool" where
  "is_linebreak c = (let n = (of_char c :: nat) in
     (10 \<le> n \<and> n \<le> 13) \<or> (28 \<le> n \<and> n \<le> 30) \<or> n = 133)"

fun splitlines_from :: "string \<Rightarrow> string \<Rightarrow> string list" where
  "splitlines_from cur [] = (if cur = [] then [] else [cur])"
| "splitlines_from cur (c # cs) =
     (if c = CR \<and> cs \<noteq> [] \<and> hd cs = NL then cur # splitlines_from [] (tl cs)
      else if is_linebreak c then cur # splitlines_from [] cs
      else splitlines_from (cur @ [c]) cs)"

definition splitlines :: "string \<Rightarrow> string list" where
  "splitlines s = splitlines_from [] s"

text \<open>\<open>CODE_FENCE_RE.match(ln.strip())\<close>: the trimmed line starts with three backticks.\<close>

definition is_fence :: "string \<Rightarrow> bool" where
  "is_fence line = prefix [CHR 0x60, CHR 0x60, CHR 0x60] (strip line)"

text \<open>
  The loop of \<open>split_paragraphs_preserving\<close> over the lines, on the state
  \<open>(paras, buf, in_fence)\<close>; \<open>para_finish\<close> is the code after the loop.
\<close>

type_synonym para_state = "string list \<times> string list \<times> bool"

fun para_step :: "para_state \<Rightarrow> string \<Rightarrow> para_state" where
  "para_step (paras, buf, in_fence) line =
     (if is_fence line then (paras, buf @ [line], \<not> in_fence)
      else if \<not> in_fence \<and> strip line = [] then
        (if buf \<noteq> [] then (paras @ [strip (join [NL] buf)], [], in_fence)
         else (paras, buf, in_fence))
      else (paras, buf @ [line], in_fence))"

fun para_finish :: "para_state \<Rightarrow> string list" where
  "para_finish (paras, buf, in_fence) =
     (if buf \<noteq> [] then paras @ [strip (join [NL] buf)] else paras)"

definition split_paragraphs_preserving :: "string \<Rightarrow> string list" where
  "split_paragraphs_preserving text =
     filter (\<lambda>p. p \<noteq> []) (para_finish (foldl para_step ([], [], False) (splitlines text)))"

section \<open>Heading extractor\<close>

text \<open>
  \<open>HEADING_RE.match(ln)\<close> for the pattern \<open>^(?P<hashes>#{1,6})\s+(?P<title>.+?)\s*$\<close>,
  giving the two groups. The run of \<open>#\<close> at the start must have 1 to 6 characters and
  be followed by whitespace (any shorter choice of \<open>hashes\<close> leaves a \<open>#\<close> where
  \<open>\s+\<close> must match). \<open>\s+\<close> is greedy: it first takes the whole whitespace run, and
  \<open>title\<close> is then the rest without its trailing whitespace, which must not contain a
  newline (\<open>.\<close> does not match one). When nothing follows the whitespace run, \<open>\s+\<close>
  gives characters back and \<open>title\<close> is the last character of the run, after its first
  one, that is not a newline.
\<close>

definition heading_re :: "string \<Rightarrow> (string \<times> string) option" where
  "heading_re line =
     (let hashes = takeWhile (\<lambda>c. c = CHR ''#'') line;
          rest = drop (length hashes) line;
          ws = takeWhile is_space rest;
          r = dropWhile is_space rest
      in if length hashes < 1 \<or> 6 < length hashes \<or> ws = [] then None
         else if r \<noteq> [] then
           (if NL \<in> set (rstrip r) then None else Some (hashes, rstrip r))
         else (case filter (\<lambda>c. c \<noteq> NL) (tl ws) of
                 [] \<Rightarrow> None
               | c # cs \<Rightarrow> Some (hashes, [last (c # cs)])))"

text \<open>The loop of \<open>parse_headings\<close>, on the state \<open>(headings, in_fence)\<close>.\<close>

fun heading_step :: "(nat \<times> string) list \<times> bool \<Rightarrow> string \<Rightarrow> (nat \<times> string) list \<times> bool" where
  "heading_step (headings, in_fence) line =
     (if is_fence line then (headings, \<not> in_fence)
      else if in_fence then (headings, in_fence)
      else (case heading_re line of
              Some (hashes, title) \<Rightarrow> (headings @ [(length hashes, strip title)], in_fence)
            | None \<Rightarrow> (headings, in_fence)))"

definition parse_headings :: "string \<Rightarrow> (nat \<times> string) list" where
  "parse_headings text = fst (foldl heading_step ([], False) (splitlines text))"

section \<open>Chunker\<close>

text \<open>
  A \<open>Path\<close> enters \<open>chunk_markdown\<close> only through \<open>str(path)\<close> and
  \<open>Path(path).stem\<close>; both are fields of the model's path.
\<close>

record path =
  path_str :: string
  path_stem :: string

record chunk =
  c_id :: string
  c_path :: string
  c_title :: string
  c_heading :: string
  c_start :: int
  c_end :: int
  c_text :: string

record toc_entry =
  t_path :: string
  t_level :: nat
  t_title :: string
  t_anchor :: string

abbreviation BS :: char where "BS \<equiv> CHR 0x5C"

text \<open>\<open>s.replace("\\", "/")\<close> (one backslash) and \<open>s.replace('\\\\', '/')\<close> (two).\<close>

definition replace_bs :: "string \<Rightarrow> string" where
  "replace_bs s = map (\<lambda>c. if c = BS then CHR ''/'' else c) s"

fun replace_bsbs :: "string \<Rightarrow> string" where
  "replace_bsbs (a # b # cs) =
     (if a = BS \<and> b = BS then CHR ''/'' # replace_bsbs cs else a # replace_bsbs (b # cs))"
| "replace_bsbs cs = cs"

text \<open>The format \<open>{chunk_idx:04d}\<close>: decimal digits, padded with zeros to four.\<close>

fun digits :: "nat \<Rightarrow> nat \<Rightarrow> string" where
  "digits 0 n = []"
| "digits (Suc fuel) n =
     (if n < 10 then [char_of (48 + n)] else digits fuel (n div 10) @ [char_of (48 + n mod 10)])"

definition format_04d :: "nat \<Rightarrow> string" where
  "format_04d n = (let d = digits (Suc n) n in replicate (4 - length d) (CHR ''0'') @ d)"

text \<open>
  \<open>text.find(p, pos)\<close>: the lowest index at or after \<open>pos\<close> where \<open>p\<close> occurs,
  \<open>None\<close> where Python returns -1.
\<close>

fun find_sub :: "string \<Rightarrow> string \<Rightarrow> nat \<Rightarrow> nat option" where
  "find_sub p [] i = (if p = [] then Some i else None)"
| "find_sub p (c # cs) i = (if prefix p (c # cs) then Some i else find_sub p cs (Suc i))"

definition find_from :: "string \<Rightarrow> string \<Rightarrow> nat \<Rightarrow> nat option" where
  "find_from text p pos = (if length text < pos then None else find_sub p (drop pos text) pos)"

text \<open>The pre-calculation of the heading positions: state \<open>(headings_positions, pos)\<close>.\<close>

fun heading_pos_step ::
  "(nat \<times> nat \<times> string) list \<times> nat \<Rightarrow> string \<Rightarrow> (nat \<times> nat \<times> string) list \<times> nat" where
  "heading_pos_step (hps, pos) line =
     ((case heading_re line of
         Some (hashes, title) \<Rightarrow> hps @ [(pos, length hashes, strip title)]
       | None \<Rightarrow> hps),
      pos + length line + 1)"

definition headings_positions :: "string \<Rightarrow> (nat \<times> nat \<times> string) list" where
  "headings_positions stripped = fst (foldl heading_pos_step ([], 0) (splitlines stripped))"

text \<open>The paragraph positions: state \<open>(par_positions, pos)\<close>.\<close>

fun par_pos_step :: "string \<Rightarrow> nat list \<times> nat \<Rightarrow> string \<Rightarrow> nat list \<times> nat" where
  "par_pos_step stripped (pps, pos) p =
     (let idx = (case find_from stripped p pos of Some i \<Rightarrow> i | None \<Rightarrow> pos)
      in (pps @ [idx], idx + length p))"

definition par_positions :: "string \<Rightarrow> string list \<Rightarrow> nat list" where
  "par_positions stripped paras = fst (foldl (par_pos_step stripped) ([], 0) paras)"

definition context_title :: "(nat \<times> nat \<times> string) list \<Rightarrow> nat \<Rightarrow> string" where
  "context_title hps idx =
     (let prev = filter (\<lambda>h. fst h \<le> idx) hps
      in if prev \<noteq> [] then snd (snd (last prev)) else [])"

definition frames :: "string \<Rightarrow> (string \<times> string) list" where
  "frames stripped =
     (let paras = split_paragraphs_preserving stripped;
          hps = headings_positions stripped
      in map (\<lambda>(idx, p). (context_title hps idx, p)) (zip (par_positions stripped paras) paras))"

text \<open>The rolling loop: its variables, and the chunks emitted so far.\<close>

record roll_state =
  cur_text :: string
  cur_heading :: string
  start_char :: int
  acc_len :: int
  chunk_idx :: nat
  chunks :: "chunk list"

definition flush_chunk :: "path \<Rightarrow> string \<Rightarrow> string \<Rightarrow> int \<Rightarrow> int \<Rightarrow> roll_state \<Rightarrow> roll_state" where
  "flush_chunk pth text_acc heading_acc start end st =
     (if strip text_acc = [] then st
      else st\<lparr>chunks := chunks st @
                 [\<lparr>c_id = replace_bsbs (path_str pth) @ '':chunk-'' @ format_04d (chunk_idx st),
                   c_path = replace_bs (path_str pth),
                   c_title = path_stem pth,
                   c_heading = heading_acc,
                   c_start = start,
                   c_end = end,
                   c_text = strip text_acc\<rparr>],
              chunk_idx := chunk_idx st + 1\<rparr>)"

definition roll_step :: "path \<Rightarrow> int \<Rightarrow> int \<Rightarrow> roll_state \<Rightarrow> string \<times> string \<Rightarrow> roll_state" where
  "roll_step pth chunk_size overlap st fr =
     (let ctx_title = fst fr; para_text = strip (snd fr) in
      if para_text = [] then st
      else
        let st1 = (if cur_text st = [] then st\<lparr>cur_heading := ctx_title, start_char := acc_len st\<rparr>
                   else st);
            st2 =
              (if int (length (cur_text st1)) + 2 + int (length para_text) \<le> chunk_size then
                 st1\<lparr>cur_text := (if cur_text st1 \<noteq> [] then cur_text st1 @ [NL, NL] @ para_text
                                    else para_text)\<rparr>
               else
                 let st3 = flush_chunk pth (cur_text st1) (cur_heading st1) (start_char st1)
                             (start_char st1 + int (length (cur_text st1))) st1;
                     st4 =
                       (if overlap > 0 \<and> int (length (cur_text st3)) > overlap then
                          let tail = drop (length (cur_text st3) - nat overlap) (cur_text st3);
                              new_text = tail @ [NL, NL] @ para_text
                          in st3\<lparr>cur_text := new_text,
                                 start_char := start_char st3 + int (length new_text)
                                   - int (length tail) - int (length para_text) - 2\<rparr>
                        else
                          st3\<lparr>cur_text := para_text,
                              start_char := start_char st3 + int (length para_text)\<rparr>)
                 in st4\<lparr>cur_heading := ctx_title\<rparr>)
        in st2\<lparr>acc_len := acc_len st2 + int (length para_text) + 2\<rparr>)"

definition roll_init :: roll_state where
  "roll_init = \<lparr>cur_text = [], cur_heading = [], start_char = 0, acc_len = 0,
                chunk_idx = 0, chunks = []\<rparr>"

definition roll :: "path \<Rightarrow> int \<Rightarrow> int \<Rightarrow> (string \<times> string) list \<Rightarrow> chunk list" where
  "roll pth chunk_size overlap frs =
     (let st = foldl (roll_step pth chunk_size overlap) roll_init frs
      in chunks (flush_chunk pth (cur_text st) (cur_heading st) (start_char st)
                   (start_char st + int (length (cur_text st))) st))"

definition build_toc :: "path \<Rightarrow> string \<Rightarrow> toc_entry list" where
  "build_toc pth stripped =
     map (\<lambda>(level, title). \<lparr>t_path = replace_bs (path_str pth), t_level = level,
                             t_title = title, t_anchor = slugify title\<rparr>)
         (parse_headings stripped)"

definition chunk_markdown :: "path \<Rightarrow> string \<Rightarrow> int \<Rightarrow> int \<Rightarrow> chunk list \<times> toc_entry list" where
  "chunk_markdown pth text chunk_size overlap =
     (let stripped = strip_front_matter text
      in (roll pth chunk_size overlap (frames stripped), build_toc pth stripped))"

section \<open>Keywords and neighbors\<close>

text \<open>
  The term weighting, the embedding model and the nearest-neighbor searches are library
  calls; the model takes what they return as functions of their arguments. Scores and
  distances are floating-point numbers in the program and real numbers here.
  \<^item> \<open>tfidf_terms docs\<close>: for each row of the fitted matrix, its terms by descending
    weight (\<open>row.data.argsort()[::-1]\<close> mapped through the vocabulary);
  \<^item> \<open>faiss_search texts n\<close>: the pair \<open>(D, I)\<close> of \<open>index.search(vectors, n)\<close> on the
    embeddings of \<open>texts\<close>, one row per text;
  \<^item> \<open>embs_kneighbors texts n\<close> and \<open>tfidf_kneighbors texts n\<close>: the pair
    \<open>(dists, idxs)\<close> of \<open>kneighbors\<close> for \<open>n_neighbors = n\<close>, fitted and queried on the
    embeddings, respectively the TF-IDF matrix, of \<open>texts\<close>.
\<close>

record caps =
  have_sentence_transformers :: bool
  have_faiss :: bool
  tfidf_terms :: "string list \<Rightarrow> string list list"
  faiss_search :: "string list \<Rightarrow> int \<Rightarrow> real list list \<times> int list list"
  embs_kneighbors :: "string list \<Rightarrow> int \<Rightarrow> real list list \<times> int list list"
  tfidf_kneighbors :: "string list \<Rightarrow> int \<Rightarrow> real list list \<times> int list list"

text \<open>\<open>xs[i]\<close>: a negative index counts from the end; \<open>None\<close> where Python raises IndexError.\<close>

definition py_get :: "'a list \<Rightarrow> int \<Rightarrow> 'a option" where
  "py_get xs i =
     (if 0 \<le> i \<and> i < int (length xs) then Some (xs ! nat i)
      else if i < 0 \<and> - int (length xs) \<le> i then Some (xs ! nat (int (length xs) + i))
      else None)"

text \<open>\<open>xs[:n]\<close>.\<close>

definition py_take :: "int \<Rightarrow> 'a list \<Rightarrow> 'a list" where
  "py_take n xs = (if 0 \<le> n then take (nat n) xs else take (length xs - nat (- n)) xs)"

definition build_keywords :: "caps \<Rightarrow> chunk list \<Rightarrow> int \<Rightarrow> (string \<times> string list) list" where
  "build_keywords cp cs topk =
     (let docs = map c_text cs in
      if docs = [] then []
      else map (\<lambda>(c, terms). (c_id c, if terms = [] then [] else py_take topk terms))
               (zip cs (tfidf_terms cp docs)))"

text \<open>
  The inner loop of the index search: entries equal to \<open>i\<close> or negative are skipped, and
  the loop breaks once \<open>kk\<close> entries are collected; the test comes after the append.
\<close>

fun faiss_row :: "int \<Rightarrow> int \<Rightarrow> (int \<times> real) list \<Rightarrow> (int \<times> real) list \<Rightarrow> (int \<times> real) list" where
  "faiss_row kk i [] neigh = neigh"
| "faiss_row kk i ((j, score) # rest) neigh =
     (if j = i \<or> j < 0 then faiss_row kk i rest neigh
      else (let neigh' = neigh @ [(j, score)]
            in if int (length neigh') \<ge> kk then neigh' else faiss_row kk i rest neigh'))"

text \<open>The inner loop on the result of \<open>kneighbors\<close> in the embedding branch.\<close>

fun nn_row :: "int \<Rightarrow> int \<Rightarrow> (int \<times> real) list \<Rightarrow> (int \<times> real) list \<Rightarrow> (int \<times> real) list" where
  "nn_row kk i [] neigh = neigh"
| "nn_row kk i ((j, dst) # rest) neigh =
     (if j = i then nn_row kk i rest neigh
      else (let score = 1 - dst; neigh' = neigh @ [(j, score)]
            in if int (length neigh') \<ge> kk then neigh' else nn_row kk i rest neigh'))"

text \<open>The inner loop of the TF-IDF fallback, which looks the id up before the append.\<close>

fun tfidf_row ::
  "string list \<Rightarrow> int \<Rightarrow> int \<Rightarrow> (int \<times> real) list \<Rightarrow> (string \<times> real) list \<Rightarrow>
   (string \<times> real) list option" where
  "tfidf_row ids k i [] neigh = Some neigh"
| "tfidf_row ids k i ((j, dst) # rest) neigh =
     (if j = i then tfidf_row ids k i rest neigh
      else (case py_get ids j of
              None \<Rightarrow> None
            | Some idj \<Rightarrow>
                (let score = 1 - dst; neigh' = neigh @ [(idj, score)]
                 in if int (length neigh') \<ge> k then Some neigh' else tfidf_row ids k i rest neigh')))"

text \<open>
  \<open>topk_faiss\<close>: one neighbor list per row, \<open>i\<close> counting the rows from \<open>i0\<close>.
\<close>

fun topk_rows ::
  "(int \<Rightarrow> (int \<times> real) list \<Rightarrow> (int \<times> real) list) \<Rightarrow> int \<Rightarrow>
   (int list \<times> real list) list \<Rightarrow> (int \<times> real) list list" where
  "topk_rows row i0 [] = []"
| "topk_rows row i0 ((js, ds) # rows) = row i0 (zip js ds) # topk_rows row (i0 + 1) rows"

definition topk_faiss :: "caps \<Rightarrow> string list \<Rightarrow> int \<Rightarrow> (int \<times> real) list list" where
  "topk_faiss cp texts kk =
     (if have_faiss cp then
        (let (D, I) = faiss_search cp texts (kk + 1)
         in topk_rows (\<lambda>i ps. faiss_row kk i ps []) 0 (zip I D))
      else
        (let (dists, idxs) = embs_kneighbors cp texts (min (kk + 1) (int (length texts)))
         in topk_rows (\<lambda>i ps. nn_row kk i ps []) 0 (zip idxs dists)))"

text \<open>
  The dictionary \<open>out\<close> is filled row by row; a later row with the same id overwrites
  an earlier one.
\<close>

fun dense_out ::
  "string list \<Rightarrow> int \<Rightarrow> (int \<times> real) list list \<Rightarrow> (string \<rightharpoonup> (string \<times> real) list) \<Rightarrow>
   (string \<rightharpoonup> (string \<times> real) list) option" where
  "dense_out ids i [] out = Some out"
| "dense_out ids i (neigh # rest) out =
     (case py_get ids i of
        None \<Rightarrow> None
      | Some idi \<Rightarrow>
          (case those (map (\<lambda>(j, score). map_option (\<lambda>idj. (idj, score)) (py_get ids j)) neigh) of
             None \<Rightarrow> None
           | Some row \<Rightarrow> dense_out ids (i + 1) rest (out(idi \<mapsto> row))))"

fun sparse_out ::
  "string list \<Rightarrow> int \<Rightarrow> int \<Rightarrow> (int list \<times> real list) list \<Rightarrow>
   (string \<rightharpoonup> (string \<times> real) list) \<Rightarrow> (string \<rightharpoonup> (string \<times> real) list) option" where
  "sparse_out ids k i [] out = Some out"
| "sparse_out ids k i ((row_idx, row_dist) # rest) out =
     (case tfidf_row ids k i (zip row_idx row_dist) [] of
        None \<Rightarrow> None
      | Some neigh \<Rightarrow>
          (case py_get ids i of
             None \<Rightarrow> None
           | Some idi \<Rightarrow> sparse_out ids k (i + 1) rest (out(idi \<mapsto> neigh))))"

text \<open>\<open>build_neighbors\<close>; \<open>None\<close> where an index lookup raises.\<close>

definition build_neighbors ::
  "caps \<Rightarrow> chunk list \<Rightarrow> int \<Rightarrow> (string \<rightharpoonup> (string \<times> real) list) option" where
  "build_neighbors cp cs k =
     (let texts = map c_text cs; ids = map c_id cs in
      if texts = [] then Some Map.empty
      else if have_sentence_transformers cp then
        dense_out ids 0 (topk_faiss cp texts k) Map.empty
      else
        (let (dists, idxs) = tfidf_kneighbors cp texts (min (k + 1) (int (length texts)))
         in sparse_out ids k 0 (zip idxs dists) Map.empty))"

section \<open>The run\<close>

text \<open>
  The run works on a world: the platform and the file system it meets, and the streams
  it prints to.
  \<^item> \<open>path_text s\<close> is \<open>str(Path(s))\<close>, the text of the path made from the argument
    \<open>s\<close> (on a POSIX platform \<open>./book/\<close> gives \<open>book\<close>);
  \<^item> \<open>mkdir_ok d\<close> tells whether \<open>mkdir(parents=True, exist_ok=True)\<close> succeeds for
    the directory given as \<open>d\<close>, and \<open>write_ok (d, name)\<close> whether the file \<open>name\<close>
    in it can be opened for writing; where they are false the call raises;
  \<^item> \<open>md_tree d\<close>: the sorted result of the glob under the directory given as \<open>d\<close>, each
    path with the text \<open>read_markdown\<close> gives, \<open>None\<close> where reading it raises;
  \<^item> \<open>dirs\<close> and \<open>files\<close>: the directories the run has made sure of, and the files
    written, by the directory and the name they were written under. A written file is
    modelled by its rows, not by their JSON text.
\<close>

text \<open>The parsed arguments; field \<open>a_x\<close> is \<open>args.x\<close>.\<close>

record args =
  a_input_dir :: string
  a_out_dir :: string
  a_chunk_size :: int
  a_chunk_overlap :: int
  a_keywords_per_chunk :: int
  a_knn :: int

datatype artifact =
    ChunkRows "chunk list"
  | TocRows "toc_entry list"
  | KeywordRows "(string \<times> string list) list"
  | NeighborRows "(string \<times> (string \<times> real) list) list"

record world =
  path_text :: "string \<Rightarrow> string"
  mkdir_ok :: "string \<Rightarrow> bool"
  write_ok :: "string \<times> string \<Rightarrow> bool"
  md_tree :: "string \<Rightarrow> (path \<times> string option) list"
  dirs :: "string set"
  files :: "string \<times> string \<rightharpoonup> artifact"
  stderr :: "string list"
  stdout :: "string list"

text \<open>
  How a run ends: \<open>main\<close> returns, \<open>sys.exit\<close> is called with a status, or an exception
  leaves \<open>main\<close> (the interpreter then ends with a non-zero status).
\<close>

datatype outcome = Returned | SysExit int | Raised

text \<open>
  \<open>write_jsonl\<close> and \<open>write_json\<close>: the parent directory is made sure of, then the file
  is written; \<open>None\<close> where one of the two raises.
\<close>

definition write_file :: "string \<Rightarrow> string \<Rightarrow> artifact \<Rightarrow> world \<Rightarrow> world option" where
  "write_file dir name rows w =
     (if mkdir_ok w dir \<and> write_ok w (dir, name)
      then Some (w\<lparr>dirs := insert dir (dirs w), files := (files w)((dir, name) \<mapsto> rows)\<rparr>)
      else None)"

definition str_nat :: "nat \<Rightarrow> string" where
  "str_nat n = digits (Suc n) n"

definition main :: "caps \<Rightarrow> args \<Rightarrow> world \<Rightarrow> world \<times> outcome" where
  "main cp a w0 =
     (if \<not> mkdir_ok w0 (a_out_dir a) then (w0, Raised)
      else
        let w1 = w0\<lparr>dirs := insert (a_out_dir a) (dirs w0)\<rparr>;
            md_files = md_tree w1 (a_input_dir a)
        in if md_files = [] then
             (w1\<lparr>stderr := stderr w1 @
                   [''[build_index] No markdown files found under: '' @ path_text w1 (a_input_dir a)]\<rparr>,
              SysExit 0)
           else
             (case those (map snd md_files) of
                None \<Rightarrow> (w1, Raised)
              | Some txts \<Rightarrow>
                  (let results = map (\<lambda>(p, txt). chunk_markdown p txt (a_chunk_size a) (a_chunk_overlap a))
                                     (zip (map fst md_files) txts);
                       all_chunks = concat (map fst results);
                       full_toc = concat (map snd results)
                   in case write_file (a_out_dir a) ''chunks.jsonl'' (ChunkRows all_chunks) w1 of
                        None \<Rightarrow> (w1, Raised)
                      | Some w2 \<Rightarrow>
                  (case write_file (a_out_dir a) ''toc.json'' (TocRows full_toc) w2 of
                        None \<Rightarrow> (w2, Raised)
                      | Some w3 \<Rightarrow>
                  (let kw = build_keywords cp all_chunks (a_keywords_per_chunk a)
                   in case write_file (a_out_dir a) ''keywords.jsonl'' (KeywordRows kw) w3 of
                        None \<Rightarrow> (w3, Raised)
                      | Some w4 \<Rightarrow>
                  (case build_neighbors cp all_chunks (a_knn a) of
                        None \<Rightarrow> (w4, Raised)
                      | Some neigh \<Rightarrow>
                  (let rows = map (\<lambda>cid. (cid, case neigh cid of Some r \<Rightarrow> r | None \<Rightarrow> []))
                                  (map c_id all_chunks)
                   in case write_file (a_out_dir a) ''neighbors.jsonl'' (NeighborRows rows) w4 of
                        None \<Rightarrow> (w4, Raised)
                      | Some w5 \<Rightarrow>
                        (w5\<lparr>stdout := stdout w5 @
                           [''[build_index] Done. Wrote '' @ str_nat (length all_chunks) @
                              '' chunks | '' @ str_nat (length full_toc) @ '' toc entries'',
                            ''[build_index] Artifacts in: '' @ path_text w5 (a_out_dir a) @
                              ''/ (chunks.jsonl, keywords.jsonl, neighbors.jsonl, toc.json)'']\<rparr>,
                         Returned))))))))"

section \<open>Invariants of the rolling loop\<close>

text \<open>
  The emitted starts are in order and none exceeds the current \<open>start_char\<close>; chunks
  are emitted only once the accumulator is non-empty.
\<close>

definition starts_inv :: "roll_state \<Rightarrow> bool" where
  "starts_inv st =
     (sorted_wrt (\<le>) (map c_start (chunks st))
      \<and> list_all (\<lambda>c. c_start c \<le> start_char st) (chunks st)
      \<and> (cur_text st \<noteq> [] \<or> chunks st = []))"



section \<open>Invariants for whole paragraphs and fenced blocks\<close>

text \<open>
  A paragraph \<open>p\<close> that the rolling loop has taken is a contiguous part of an emitted
  chunk or of the accumulator.
\<close>

definition holds_para :: "string \<Rightarrow> roll_state \<Rightarrow> bool" where
  "holds_para p st =
     (list_ex (\<lambda>c. sublist p (c_text c)) (chunks st) \<or> sublist p (cur_text st))"

text \<open>
  The lines \<open>blk\<close> of a fenced block are a contiguous part of the line buffer of the
  paragraph splitter, or their text is a contiguous part of a finished paragraph.
\<close>

definition keeps_block :: "string list \<Rightarrow> para_state \<Rightarrow> bool" where
  "keeps_block blk st =
     (list_ex (sublist (strip (join [NL] blk))) (fst st) \<or> sublist blk (fst (snd st)))"

section \<open>Separators of an anchor\<close>

text \<open>Whitespace and hyphens, the characters that end up as the hyphens of an anchor.\<close>

definition is_sep :: "char \<Rightarrow> bool" where
  "is_sep c = (is_space c \<or> c = CHR ''-'')"



text \<open>
  The steps of \<open>slugify\<close> written out one by one: trim the whitespace around the
  title, lowercase, keep only word characters, whitespace and hyphens, turn each run of
  whitespace into one hyphen, turn each run of hyphens into one hyphen. \<open>squeeze\<close>
  passes over the text once, with a flag that tells whether it is inside a run.
\<close>

fun squeeze :: "(char \<Rightarrow> bool) \<Rightarrow> bool \<Rightarrow> string \<Rightarrow> string" where
  "squeeze P in_run [] = []"
| "squeeze P in_run (c # cs) =
     (if P c then (if in_run then squeeze P True cs else CHR ''-'' # squeeze P True cs)
      else c # squeeze P False cs)"

definition slugify_by_steps :: "string \<Rightarrow> string" where
  "slugify_by_steps title =
     (let trimmed = strip title;
          lowered = lower trimmed;
          kept = filter (\<lambda>c. is_word c \<or> is_space c \<or> c = CHR ''-'') lowered;
          hyphenated = squeeze is_space False kept;
          collapsed = squeeze (\<lambda>c. c = CHR ''-'') False hyphenated
      in collapsed)"

section \<open>Properties\<close>

subsection \<open>Chunk offsets under overlap\<close>

text \<open>
  C1. After a flush with \<open>overlap > 0\<close> and a flushed text longer than \<open>overlap\<close>, the
  new accumulator is the trailing \<open>overlap\<close> characters of the flushed text, a blank-line
  separator and the next paragraph, and the successor chunk's start should be the flushed
  chunk's end minus \<open>overlap\<close>. The code assigns the new \<open>cur_text\<close> before it recomputes
  \<open>start_char\<close> from \<open>len(cur_text)\<close>, so the recomputed start is the old one. With
  chunk size 10 and overlap 2, the paragraphs \<open>abcde\<close> and \<open>fghijkl\<close> give a first
  chunk with span 0 to 5 and a second chunk, seeded with \<open>de\<close>, that starts at 0, where
  5 - 2 = 3 is expected.
\<close>

theorem chunk_start_after_overlap_flush:
  "map (\<lambda>c. (c_start c, c_end c, c_text c))
     (fst (chunk_markdown \<lparr>path_str = ''book/a.md'', path_stem = ''a''\<rparr>
             ''abcde\<newline>\<newline>fghijkl'' 10 2))
   = [(0, 5, ''abcde''), (0, 11, ''de\<newline>\<newline>fghijkl'')]"
  by code_simp

subsection \<open>Headings inside fences\<close>

text \<open>
  C3. A line that matches the heading pattern between an opening and a closing fence line
  should give no table-of-contents entry and should never be a paragraph's context
  heading. \<open>parse_headings\<close> skips such lines, the pre-calculation of the heading
  positions does not: in the document below the fenced line \<open># x\<close> gives no
  table-of-contents entry, and it is the context heading of the paragraph after the
  fence and the heading of the chunk that starts with it.
\<close>

theorem fenced_heading_becomes_context:
  "frames ''```\<newline># x\<newline>```\<newline>\<newline>para''
     = [([], ''```\<newline># x\<newline>```''), (''x'', ''para'')]
   \<and> map (\<lambda>c. (c_heading c, c_text c))
       (fst (chunk_markdown \<lparr>path_str = ''book/a.md'', path_stem = ''a''\<rparr>
               ''```\<newline># x\<newline>```\<newline>\<newline>para'' 5 0))
     = [([], ''```\<newline># x\<newline>```''), (''x'', ''para'')]
   \<and> snd (chunk_markdown \<lparr>path_str = ''book/a.md'', path_stem = ''a''\<rparr>
               ''```\<newline># x\<newline>```\<newline>\<newline>para'' 5 0) = []"
  by code_simp

subsection \<open>A run without markdown files\<close>

text \<open>
  C4, as the code has it. When the output directory can be made and no markdown file is
  found under the input directory, the run exits with status 0 after one notice on the
  error stream, which names the input directory by the text of its path. The output
  directory has been made; the run prints nothing else and writes or changes no file, so
  none of the four artifacts is created by the run.
\<close>

theorem main_no_markdown:
  assumes "mkdir_ok w (a_out_dir a)" and "md_tree w (a_input_dir a) = []"
  shows "snd (main cp a w) = SysExit 0
       \<and> stderr (fst (main cp a w)) =
           stderr w @ [''[build_index] No markdown files found under: '' @ path_text w (a_input_dir a)]
       \<and> stdout (fst (main cp a w)) = stdout w
       \<and> files (fst (main cp a w)) = files w
       \<and> dirs (fst (main cp a w)) = insert (a_out_dir a) (dirs w)"
  using assms by (simp add: main_def)

theorem main_no_markdown_witness:
  "mkdir_ok
       \<lparr>path_text = (\<lambda>s. if s = ''./book/'' then ''book'' else s), mkdir_ok = (\<lambda>d. True),
        write_ok = (\<lambda>f. True), md_tree = (\<lambda>d. []), dirs = {}, files = Map.empty,
        stderr = [], stdout = []\<rparr> (a_out_dir
       \<lparr>a_input_dir = ''./book/'', a_out_dir = ''.rag'', a_chunk_size = 1000,
        a_chunk_overlap = 120, a_keywords_per_chunk = 10, a_knn = 5\<rparr>)
   \<and> md_tree
       \<lparr>path_text = (\<lambda>s. if s = ''./book/'' then ''book'' else s), mkdir_ok = (\<lambda>d. True),
        write_ok = (\<lambda>f. True), md_tree = (\<lambda>d. []), dirs = {}, files = Map.empty,
        stderr = [], stdout = []\<rparr> (a_input_dir
       \<lparr>a_input_dir = ''./book/'', a_out_dir = ''.rag'', a_chunk_size = 1000,
        a_chunk_overlap = 120, a_keywords_per_chunk = 10, a_knn = 5\<rparr>) = []
   \<and> snd (main
       \<lparr>have_sentence_transformers = False, have_faiss = False,
        tfidf_terms = (\<lambda>docs. map (\<lambda>d. [d]) docs),
        faiss_search = (\<lambda>texts n. ([], [])),
        embs_kneighbors = (\<lambda>texts n. ([], [])),
        tfidf_kneighbors = (\<lambda>texts n. ([], []))\<rparr>
       \<lparr>a_input_dir = ''./book/'', a_out_dir = ''.rag'', a_chunk_size = 1000,
        a_chunk_overlap = 120, a_keywords_per_chunk = 10, a_knn = 5\<rparr>
       \<lparr>path_text = (\<lambda>s. if s = ''./book/'' then ''book'' else s), mkdir_ok = (\<lambda>d. True),
        write_ok = (\<lambda>f. True), md_tree = (\<lambda>d. []), dirs = {}, files = Map.empty,
        stderr = [], stdout = []\<rparr>) = SysExit 0
   \<and> stderr (fst (main
       \<lparr>have_sentence_transformers = False, have_faiss = False,
        tfidf_terms = (\<lambda>docs. map (\<lambda>d. [d]) docs),
        faiss_search = (\<lambda>texts n. ([], [])),
        embs_kneighbors = (\<lambda>texts n. ([], [])),
        tfidf_kneighbors = (\<lambda>texts n. ([], []))\<rparr>
       \<lparr>a_input_dir = ''./book/'', a_out_dir = ''.rag'', a_chunk_size = 1000,
        a_chunk_overlap = 120, a_keywords_per_chunk = 10, a_knn = 5\<rparr>
       \<lparr>path_text = (\<lambda>s. if s = ''./book/'' then ''book'' else s), mkdir_ok = (\<lambda>d. True),
        write_ok = (\<lambda>f. True), md_tree = (\<lambda>d. []), dirs = {}, files = Map.empty,
        stderr = [], stdout = []\<rparr>)) = [''[build_index] No markdown files found under: book'']
   \<and> dirs (fst (main
       \<lparr>have_sentence_transformers = False, have_faiss = False,
        tfidf_terms = (\<lambda>docs. map (\<lambda>d. [d]) docs),
        faiss_search = (\<lambda>texts n. ([], [])),
        embs_kneighbors = (\<lambda>texts n. ([], [])),
        tfidf_kneighbors = (\<lambda>texts n. ([], []))\<rparr>
       \<lparr>a_input_dir = ''./book/'', a_out_dir = ''.rag'', a_chunk_size = 1000,
        a_chunk_overlap = 120, a_keywords_per_chunk = 10, a_knn = 5\<rparr>
       \<lparr>path_text = (\<lambda>s. if s = ''./book/'' then ''book'' else s), mkdir_ok = (\<lambda>d. True),
        write_ok = (\<lambda>f. True), md_tree = (\<lambda>d. []), dirs = {}, files = Map.empty,
        stderr = [], stdout = []\<rparr>)) = {''.rag''}"
proof -
  have h1: "mkdir_ok
       \<lparr>path_text = (\<lambda>s. if s = ''./book/'' then ''book'' else s), mkdir_ok = (\<lambda>d. True),
        write_ok = (\<lambda>f. True), md_tree = (\<lambda>d. []), dirs = {}, files = Map.empty,
        stderr = [], stdout = []\<rparr> (a_out_dir
       \<lparr>a_input_dir = ''./book/'', a_out_dir = ''.rag'', a_chunk_size = 1000,
        a_chunk_overlap = 120, a_keywords_per_chunk = 10, a_knn = 5\<rparr>)" by simp
  have h2: "md_tree
       \<lparr>path_text = (\<lambda>s. if s = ''./book/'' then ''book'' else s), mkdir_ok = (\<lambda>d. True),
        write_ok = (\<lambda>f. True), md_tree = (\<lambda>d. []), dirs = {}, files = Map.empty,
        stderr = [], stdout = []\<rparr> (a_input_dir
       \<lparr>a_input_dir = ''./book/'', a_out_dir = ''.rag'', a_chunk_size = 1000,
        a_chunk_overlap = 120, a_keywords_per_chunk = 10, a_knn = 5\<rparr>) = []" by simp
  show ?thesis
    using main_no_markdown [OF h1 h2, of "\<lparr>have_sentence_transformers = False, have_faiss = False,
        tfidf_terms = (\<lambda>docs. map (\<lambda>d. [d]) docs),
        faiss_search = (\<lambda>texts n. ([], [])),
        embs_kneighbors = (\<lambda>texts n. ([], [])),
        tfidf_kneighbors = (\<lambda>texts n. ([], []))\<rparr>"] h1 h2 by simp
qed

text \<open>
  When the output directory cannot be made, the run ends with the exception, before it
  looks for markdown files.
\<close>

lemma main_mkdir_fails: "\<not> mkdir_ok w (a_out_dir a) \<Longrightarrow> main cp a w = (w, Raised)"
  by (simp add: main_def)

text \<open>
  C4 as stated fails: in an empty output directory, a run without markdown files leaves
  none of the four artifacts behind.
\<close>

theorem empty_input_artifacts_counterexample:
  "map (\<lambda>name. files (fst (main
       \<lparr>have_sentence_transformers = False, have_faiss = False,
        tfidf_terms = (\<lambda>docs. map (\<lambda>d. [d]) docs),
        faiss_search = (\<lambda>texts n. ([], [])),
        embs_kneighbors = (\<lambda>texts n. ([], [])),
        tfidf_kneighbors = (\<lambda>texts n. ([], []))\<rparr>
       \<lparr>a_input_dir = ''./book/'', a_out_dir = ''.rag'', a_chunk_size = 1000,
        a_chunk_overlap = 120, a_keywords_per_chunk = 10, a_knn = 5\<rparr>
       \<lparr>path_text = (\<lambda>s. if s = ''./book/'' then ''book'' else s), mkdir_ok = (\<lambda>d. True),
        write_ok = (\<lambda>f. True), md_tree = (\<lambda>d. []), dirs = {}, files = Map.empty,
        stderr = [], stdout = []\<rparr>)) (''.rag'', name))
     [''chunks.jsonl'', ''toc.json'', ''keywords.jsonl'', ''neighbors.jsonl'']
   = [None, None, None, None]"
  by (simp add: main_def)

subsection \<open>Neighbor lists\<close>

text \<open>
  C5. Every neighbor list should have at most \<open>k\<close> entries. The loops test the length
  after the append, so with \<open>k = 0\<close> an entry is kept whenever the nearest index returned
  for a chunk is not its own. Two chunks with the same text are at distance 0 from each
  other; when the search returns index 0 as nearest for both, the second chunk gets one
  neighbor although \<open>k = 0\<close>.
\<close>

theorem neighbors_exceed_k_zero:
  "map_option (\<lambda>out. (out ''a.md:chunk-0000'', out ''b.md:chunk-0000''))
     (build_neighbors
        \<lparr>have_sentence_transformers = False, have_faiss = False,
          tfidf_terms = (\<lambda>docs. map (\<lambda>d. [d]) docs),
          faiss_search = (\<lambda>texts n. ([], [])),
          embs_kneighbors = (\<lambda>texts n. ([], [])),
          tfidf_kneighbors = (\<lambda>texts n. ([[0], [0]], [[0], [0]]))\<rparr>
        [\<lparr>c_id = ''a.md:chunk-0000'', c_path = ''a.md'', c_title = ''a'', c_heading = [],
           c_start = 0, c_end = 5, c_text = ''hello''\<rparr>,
         \<lparr>c_id = ''b.md:chunk-0000'', c_path = ''b.md'', c_title = ''b'', c_heading = [],
           c_start = 0, c_end = 5, c_text = ''hello''\<rparr>]
        0)
   = Some (Some [], Some [(''a.md:chunk-0000'', 1)])"
  by (simp add: build_neighbors_def py_get_def)

subsection \<open>Trimming\<close>

lemma lstrip_Nil_iff: "lstrip s = [] \<longleftrightarrow> (\<forall>c\<in>set s. is_space c)"
  by (simp add: lstrip_def dropWhile_eq_Nil_conv)

lemma rstrip_Nil_iff: "rstrip s = [] \<longleftrightarrow> (\<forall>c\<in>set s. is_space c)"
  by (simp add: rstrip_def dropWhile_eq_Nil_conv)

lemma set_lstrip_subset: "set (lstrip s) \<subseteq> set s"
  by (simp add: lstrip_def set_dropWhileD subsetI)

lemma strip_Nil_iff: "strip s = [] \<longleftrightarrow> (\<forall>c\<in>set s. is_space c)"
proof
  assume "strip s = []"
  then have a: "\<forall>c\<in>set (lstrip s). is_space c"
    by (simp add: strip_def rstrip_Nil_iff)
  show "\<forall>c\<in>set s. is_space c"
  proof (cases "lstrip s")
    case Nil
    then show ?thesis by (simp add: lstrip_Nil_iff)
  next
    case (Cons x xs)
    then have "\<not> is_space (hd (dropWhile is_space s))"
      using hd_dropWhile [of is_space s] by (simp add: lstrip_def)
    with Cons a show ?thesis by (simp add: lstrip_def)
  qed
next
  assume "\<forall>c\<in>set s. is_space c"
  then show "strip s = []"
    using set_lstrip_subset [of s] by (auto simp: strip_def rstrip_Nil_iff)
qed

lemma hd_lstrip: "lstrip s \<noteq> [] \<Longrightarrow> \<not> is_space (hd (lstrip s))"
  by (simp add: lstrip_def hd_dropWhile)

lemma last_rstrip: "rstrip s \<noteq> [] \<Longrightarrow> \<not> is_space (last (rstrip s))"
  by (simp add: rstrip_def last_rev hd_dropWhile)

lemma rstrip_append_keep: "\<not> is_space c \<Longrightarrow> rstrip (s @ [c]) = s @ [c]"
  by (simp add: rstrip_def)

lemma rstrip_id: "s \<noteq> [] \<Longrightarrow> \<not> is_space (last s) \<Longrightarrow> rstrip s = s"
  by (cases s rule: rev_cases) (simp_all add: rstrip_def)

lemma lstrip_id: "s \<noteq> [] \<Longrightarrow> \<not> is_space (hd s) \<Longrightarrow> lstrip s = s"
  by (cases s) (simp_all add: lstrip_def)

lemma hd_rstrip: "s \<noteq> [] \<Longrightarrow> \<not> is_space (hd s) \<Longrightarrow> rstrip s \<noteq> [] \<and> hd (rstrip s) = hd s"
proof -
  assume a: "s \<noteq> []" "\<not> is_space (hd s)"
  then obtain x xs where s: "s = x # xs" by (cases s) auto
  have "dropWhile is_space (rev xs @ [x]) = dropWhile is_space (rev xs) @ [x]"
    using a s by (auto simp: dropWhile_append dropWhile_eq_Nil_conv)
  then have "rstrip (x # xs) = x # rstrip xs"
    by (simp add: rstrip_def)
  then show ?thesis using s by simp
qed

lemma strip_ends: "strip s \<noteq> [] \<Longrightarrow> \<not> is_space (hd (strip s)) \<and> \<not> is_space (last (strip s))"
proof -
  assume a: "strip s \<noteq> []"
  then have l: "lstrip s \<noteq> []" by (auto simp: strip_def rstrip_def)
  have "\<not> is_space (hd (lstrip s))" using l by (rule hd_lstrip)
  then have "hd (rstrip (lstrip s)) = hd (lstrip s)" using l hd_rstrip by blast
  then show ?thesis using a l hd_lstrip last_rstrip by (simp add: strip_def)
qed

lemma strip_id: "s \<noteq> [] \<Longrightarrow> \<not> is_space (hd s) \<Longrightarrow> \<not> is_space (last s) \<Longrightarrow> strip s = s"
  by (simp add: strip_def lstrip_id rstrip_id)

lemma strip_strip: "strip (strip s) = strip s"
proof (cases "strip s = []")
  case True
  have "strip [] = []" by (simp add: strip_def lstrip_def rstrip_def)
  with True show ?thesis by simp
next
  case False
  then show ?thesis using strip_ends [OF False] by (simp add: strip_id)
qed


subsection \<open>Front matter\<close>

lemma index_of_None_iff: "index_of x xs = None \<longleftrightarrow> x \<notin> set xs"
  by (induction xs) auto

text \<open>
  What holds of the normalizer: a text with no closing delimiter line after its first
  line is returned unchanged, and a text is changed only if it starts with the three
  characters \<open>---\<close> and a later line is the delimiter.
\<close>

lemma strip_front_matter_when_changed:
  "(''---'' \<notin> set (tl (split_on NL text)) \<longrightarrow> strip_front_matter text = text)
   \<and> (strip_front_matter text \<noteq> text \<longrightarrow>
        prefix ''---'' text \<and> ''---'' \<in> set (tl (split_on NL text)))"
proof -
  have a: "''---'' \<notin> set (tl (split_on NL text)) \<Longrightarrow> strip_front_matter text = text"
    using index_of_None_iff [of "''---''" "tl (split_on NL text)"]
    by (simp add: strip_front_matter_def Let_def)
  have b: "\<not> prefix ''---'' text \<Longrightarrow> strip_front_matter text = text"
    by (simp add: strip_front_matter_def)
  from a b show ?thesis by blast
qed

text \<open>
  C9. The front matter should be stripped only when it is well-formed: a delimiter line
  at the very start and a matching closing delimiter line later. The code matches the
  closing delimiter as a whole line, but the opening one only as the first three
  characters of the text. So a text whose first line merely begins with three hyphens,
  such as a horizontal rule of four hyphens, is taken for front matter: everything up to
  the next line \<open>---\<close> is removed, although no delimiter line opens the text.
\<close>

theorem front_matter_opening_is_prefix_only:
  "hd (split_on NL ''----\<newline>intro\<newline>---\<newline>body'') = ''----''
   \<and> strip_front_matter ''----\<newline>intro\<newline>---\<newline>body'' = ''body''
   \<and> hd (split_on NL ''---x\<newline>---\<newline>b'') = ''---x''
   \<and> strip_front_matter ''---x\<newline>---\<newline>b'' = ''b''"
  by code_simp

subsection \<open>Unterminated fences\<close>

lemma para_step_no_fence_in_fence:
  "\<not> is_fence l \<Longrightarrow> para_step (paras, buf, True) l = (paras, buf @ [l], True)"
  by simp

lemma para_loop_in_fence:
  "\<forall>l\<in>set rest. \<not> is_fence l \<Longrightarrow>
   foldl para_step (paras, buf, True) rest = (paras, buf @ rest, True)"
  by (induction rest arbitrary: buf) simp_all

lemma fence_parity:
  "snd (snd (foldl para_step (paras, buf, fl) ls)) = (fl \<noteq> odd (length (filter is_fence ls)))"
proof (induction ls arbitrary: paras buf fl)
  case Nil
  then show ?case by simp
next
  case (Cons l ls)
  obtain p b f where st: "para_step (paras, buf, fl) l = (p, b, f)"
    by (cases "para_step (paras, buf, fl) l") auto
  have f: "f = (if is_fence l then \<not> fl else fl)"
    using st by (auto split: if_splits)
  show ?case using Cons.IH [of p b f] st f by auto
qed

lemma set_join: "l \<in> set ls \<Longrightarrow> set l \<subseteq> set (join sep ls)"
  by (induction sep ls rule: join.induct) auto

lemma is_fence_not_blank: "is_fence l \<Longrightarrow> \<exists>c\<in>set l. \<not> is_space c"
proof -
  assume "is_fence l"
  then have "strip l \<noteq> []" by (auto simp: is_fence_def)
  then show ?thesis by (simp add: strip_Nil_iff)
qed

lemma strip_join_fence: "is_fence f \<Longrightarrow> f \<in> set ls \<Longrightarrow> strip (join sep ls) \<noteq> []"
  using is_fence_not_blank set_join by (fastforce simp: strip_Nil_iff)

text \<open>
  C10. When the lines of a text hold an odd number of fence lines, every line after the
  last fence line, blank lines included, is folded with that fence line (and the lines
  accumulated before it) into one paragraph, which is the last paragraph of the result.
  Here \<open>pre\<close> are the lines before the last fence line \<open>f\<close>, and \<open>paras\<close> and
  \<open>buf\<close> are the paragraphs and the accumulated lines when the loop reaches \<open>f\<close>.
\<close>

theorem unterminated_fence_swallows_rest:
  assumes "splitlines text = pre @ f # rest"
    and "even (length (filter is_fence pre))"
    and "is_fence f"
    and "\<forall>l\<in>set rest. \<not> is_fence l"
    and "foldl para_step ([], [], False) pre = (paras, buf, fl)"
  shows "split_paragraphs_preserving text =
           filter (\<lambda>p. p \<noteq> []) paras @ [strip (join [NL] (buf @ f # rest))]"
proof -
  have fl: "fl = False"
    using fence_parity [of "[]" "[]" False pre] assms(2,5) by simp
  have "foldl para_step ([], [], False) (pre @ f # rest)
          = foldl para_step (para_step (paras, buf, False) f) rest"
    using assms(5) fl by simp
  also have "\<dots> = foldl para_step (paras, buf @ [f], True) rest"
    using assms(3) by simp
  also have "\<dots> = (paras, (buf @ [f]) @ rest, True)"
    using assms(4) by (rule para_loop_in_fence)
  finally have st: "foldl para_step ([], [], False) (splitlines text) = (paras, buf @ f # rest, True)"
    using assms(1) by simp
  have "strip (join [NL] (buf @ f # rest)) \<noteq> []"
    using assms(3) by (rule strip_join_fence) simp
  then show ?thesis
    by (simp add: split_paragraphs_preserving_def st)
qed

theorem unterminated_fence_swallows_rest_witness:
  "splitlines ''a\<newline>\<newline>```\<newline>x\<newline>\<newline>y'' = [''a'', []] @ ''```'' # [''x'', [], ''y'']
   \<and> even (length (filter is_fence [''a'', []]))
   \<and> is_fence ''```''
   \<and> \<not> is_fence ''x'' \<and> \<not> is_fence [] \<and> \<not> is_fence ''y''
   \<and> foldl para_step ([], [], False) [''a'', []] = ([''a''], [], False)
   \<and> split_paragraphs_preserving ''a\<newline>\<newline>```\<newline>x\<newline>\<newline>y''
       = [''a'', ''```\<newline>x\<newline>\<newline>y'']"
proof -
  have h1: "splitlines ''a\<newline>\<newline>```\<newline>x\<newline>\<newline>y'' = [''a'', []] @ ''```'' # [''x'', [], ''y'']"
    by code_simp
  have h2: "even (length (filter is_fence [''a'', []]))" by code_simp
  have h3: "is_fence ''```''" by code_simp
  have h4: "\<forall>l\<in>set [''x'', [], ''y'']. \<not> is_fence l" by code_simp
  have h5: "foldl para_step ([], [], False) [''a'', []] = ([''a''], [], False)" by code_simp
  have c: "filter (\<lambda>p. p \<noteq> []) [''a''] @ [strip (join [NL] ([] @ ''```'' # [''x'', [], ''y'']))]
             = [''a'', ''```\<newline>x\<newline>\<newline>y'']"
    by code_simp
  have h4': "\<not> is_fence ''x'' \<and> \<not> is_fence [] \<and> \<not> is_fence ''y''"
    using h4 by simp
  show ?thesis
    using unterminated_fence_swallows_rest [OF h1 h2 h3 h4 h5] h1 h2 h3 h4' h5 c by simp
qed

subsection \<open>Loop invariants\<close>

lemma foldl_invariant:
  assumes "I s" and "\<And>s x. x \<in> set xs \<Longrightarrow> I s \<Longrightarrow> I (f s x)"
  shows "I (foldl f s xs)"
  using assms by (induction xs arbitrary: s) simp_all

subsection \<open>Order of the chunk starts\<close>

lemma flush_chunk_fields:
  "cur_text (flush_chunk pth t h s e st) = cur_text st"
  "cur_heading (flush_chunk pth t h s e st) = cur_heading st"
  "start_char (flush_chunk pth t h s e st) = start_char st"
  "acc_len (flush_chunk pth t h s e st) = acc_len st"
  by (simp_all add: flush_chunk_def)

lemma flush_chunk_chunks:
  "chunks (flush_chunk pth t h s e st) = chunks st \<or>
   (\<exists>c. chunks (flush_chunk pth t h s e st) = chunks st @ [c] \<and> c_start c = s \<and> c_end c = e
        \<and> c_heading c = h \<and> c_text c = strip t \<and> strip t \<noteq> [])"
  by (simp add: flush_chunk_def)

lemma flush_chunk_Nil: "chunks (flush_chunk pth [] h s e st) = chunks st"
  by (simp add: flush_chunk_def strip_def lstrip_def rstrip_def)

lemma starts_sorted_flush:
  assumes "sorted_wrt (\<le>) (map c_start (chunks st))"
    and "list_all (\<lambda>c. c_start c \<le> start_char st) (chunks st)"
  shows "sorted_wrt (\<le>) (map c_start (chunks (flush_chunk pth t h (start_char st) e st)))
       \<and> list_all (\<lambda>c. c_start c \<le> start_char st) (chunks (flush_chunk pth t h (start_char st) e st))"
  using assms flush_chunk_chunks [of pth t h "start_char st" e st]
  by (auto simp: sorted_wrt_append list_all_iff)

lemma list_all_start_mono:
  "list_all (\<lambda>c. c_start c \<le> a) cs \<Longrightarrow> a \<le> b \<Longrightarrow> list_all (\<lambda>c. c_start c \<le> (b::int)) cs"
  by (auto simp: list_all_iff)

lemma starts_inv_step:
  assumes "starts_inv st"
  shows "starts_inv (roll_step pth chunk_size overlap st fr)"
proof (cases "strip (snd fr) = []")
  case True
  then show ?thesis using assms by (simp add: roll_step_def)
next
  case False
  show ?thesis
  proof (cases "cur_text st = []")
    case True
    then have e: "chunks st = []" using assms by (simp add: starts_inv_def)
    show ?thesis
      using False True e
      by (simp add: roll_step_def Let_def starts_inv_def flush_chunk_Nil flush_chunk_fields)
  next
    case c: False
    let ?f = "flush_chunk pth (cur_text st) (cur_heading st) (start_char st)
                (start_char st + int (length (cur_text st))) st"
    have s: "sorted_wrt (\<le>) (map c_start (chunks ?f))"
      and a: "list_all (\<lambda>c. c_start c \<le> start_char st) (chunks ?f)"
      using starts_sorted_flush [of st] assms by (simp_all add: starts_inv_def)
    have a': "list_all (\<lambda>c. c_start c \<le> start_char st + int (length (strip (snd fr)))) (chunks ?f)"
      using a by (rule list_all_start_mono) simp
    show ?thesis
      using False c assms s a a'
      by (simp add: roll_step_def Let_def starts_inv_def flush_chunk_fields)
  qed
qed

lemma starts_inv_init: "starts_inv roll_init"
  by (simp add: starts_inv_def roll_init_def)

lemma roll_starts_sorted: "sorted_wrt (\<le>) (map c_start (roll pth chunk_size overlap frs))"
proof -
  let ?st = "foldl (roll_step pth chunk_size overlap) roll_init frs"
  have "starts_inv ?st"
    by (rule foldl_invariant [where I = starts_inv]) (simp_all add: starts_inv_init starts_inv_step)
  then show ?thesis
    using starts_sorted_flush [of ?st]
    by (simp add: roll_def Let_def starts_inv_def)
qed

text \<open>
  C6. The chunks emitted for a document are in non-decreasing order of their start
  offsets: every chunk's start is at most the start of each chunk emitted after it.
\<close>

theorem chunk_starts_nondecreasing:
  "sorted_wrt (\<le>) (map c_start (fst (chunk_markdown pth text chunk_size overlap)))"
  by (simp add: chunk_markdown_def Let_def roll_starts_sorted)

subsection \<open>Size of the chunks\<close>

lemma lstrip_append_keep:
  "p \<noteq> [] \<Longrightarrow> \<not> is_space (hd p) \<Longrightarrow> lstrip (u @ p) = lstrip u @ p"
  by (cases p) (auto simp: lstrip_def dropWhile_append dropWhile_eq_Nil_conv)

lemma strip_append_keep:
  assumes "p \<noteq> []" and "\<not> is_space (hd p)" and "\<not> is_space (last p)"
  shows "strip (u @ p) = lstrip u @ p"
proof -
  have "rstrip (lstrip u @ p) = lstrip u @ p"
    using assms by (intro rstrip_id) simp_all
  then show ?thesis using assms by (simp add: strip_def lstrip_append_keep)
qed












lemma para_step_range:
  assumes "set (fst st) \<subseteq> range strip"
  shows "set (fst (para_step st line)) \<subseteq> range strip"
proof -
  obtain paras buf fl where st: "st = (paras, buf, fl)" by (cases st) auto
  show ?thesis using assms unfolding st by auto
qed

lemma paragraphs_stripped: "set (split_paragraphs_preserving text) \<subseteq> range strip"
proof -
  let ?st = "foldl para_step ([], [], False) (splitlines text)"
  have "set (fst ?st) \<subseteq> range strip"
    by (rule foldl_invariant [where I = "\<lambda>st. set (fst st) \<subseteq> range strip"])
       (simp_all add: para_step_range)
  moreover obtain paras buf fl where "?st = (paras, buf, fl)" by (cases ?st) auto
  ultimately show ?thesis
    by (auto simp: split_paragraphs_preserving_def)
qed




subsection \<open>Paragraphs stay whole\<close>

lemma rstrip_append_keep2:
  assumes "p \<noteq> []" and "\<not> is_space (last p)"
  shows "rstrip (p @ v) = p @ rstrip v"
proof -
  have "\<not> (\<forall>x\<in>set (rev p). is_space x)"
    using assms by (cases p rule: rev_cases) auto
  then have "dropWhile is_space (rev v @ rev p) = dropWhile is_space (rev v) @ rev p"
    using assms by (cases p rule: rev_cases) (auto simp: dropWhile_append dropWhile_eq_Nil_conv)
  then show ?thesis by (simp add: rstrip_def)
qed

lemma strip_around:
  assumes "p \<noteq> []" and "\<not> is_space (hd p)" and "\<not> is_space (last p)"
  shows "strip (u @ p @ v) = lstrip u @ p @ rstrip v"
proof -
  have "lstrip (u @ p @ v) = lstrip u @ p @ v"
    using assms lstrip_append_keep [of "p @ v" u] by simp
  moreover have "rstrip ((lstrip u @ p) @ v) = (lstrip u @ p) @ rstrip v"
    using assms by (intro rstrip_append_keep2) simp_all
  ultimately show ?thesis by (simp add: strip_def)
qed

lemma sublist_strip_stripped:
  assumes "sublist (strip x) t" and "strip x \<noteq> []"
  shows "sublist (strip x) (strip t)"
proof -
  obtain u v where t: "t = u @ strip x @ v" using assms(1) by (auto simp: sublist_def)
  have "strip t = lstrip u @ strip x @ rstrip v"
    unfolding t using assms(2) strip_ends [OF assms(2)] by (intro strip_around) simp_all
  then show ?thesis by (auto simp: sublist_def)
qed

lemma sublist_strip_self: "sublist (strip x) x"
proof -
  have a: "suffix (lstrip x) x" by (simp add: lstrip_def suffix_dropWhile)
  have "prefix (rev (dropWhile is_space (rev (lstrip x)))) (lstrip x)"
    using suffix_dropWhile [of is_space "rev (lstrip x)"] by (simp add: suffix_to_prefix)
  then have "prefix (strip x) (lstrip x)" by (simp add: strip_def rstrip_def)
  then show ?thesis using a by (meson prefix_imp_sublist suffix_imp_sublist sublist_order.order_trans)
qed

lemma sublist_strip:
  assumes "sublist x t" and "strip x \<noteq> []"
  shows "sublist (strip x) (strip t)"
proof -
  have "sublist (strip x) t"
    using sublist_strip_self assms(1) by (rule sublist_order.order_trans)
  then show ?thesis using assms(2) by (rule sublist_strip_stripped)
qed


lemma flush_chunk_emits:
  "strip t \<noteq> [] \<Longrightarrow> \<exists>c. chunks (flush_chunk pth t h s e st) = chunks st @ [c] \<and> c_text c = strip t"
  by (simp add: flush_chunk_def)

lemma flush_chunk_mono: "set (chunks st) \<subseteq> set (chunks (flush_chunk pth t h s e st))"
  by (auto simp: flush_chunk_def)

lemma holds_para_flush:
  assumes "holds_para p st" and "p = strip x" and "p \<noteq> []"
  shows "list_ex (\<lambda>c. sublist p (c_text c)) (chunks (flush_chunk pth (cur_text st) h s e st))"
proof (cases "list_ex (\<lambda>c. sublist p (c_text c)) (chunks st)")
  case True
  then show ?thesis
    using flush_chunk_mono [of st pth "cur_text st" h s e] by (auto simp: list_ex_iff)
next
  case False
  then have "sublist p (cur_text st)" using assms(1) by (simp add: holds_para_def)
  then have sp: "sublist p (strip (cur_text st))"
    using assms(2,3) by (simp add: sublist_strip_stripped)
  then have "strip (cur_text st) \<noteq> []" using assms(3) by auto
  then obtain c where "chunks (flush_chunk pth (cur_text st) h s e st) = chunks st @ [c]"
    and "c_text c = strip (cur_text st)"
    using flush_chunk_emits by blast
  then show ?thesis using sp by (simp add: list_ex_iff)
qed

lemma sublist_append_right: "sublist p t \<Longrightarrow> sublist p (t @ u)"
  by (metis sublist_append)

lemma sublist_tail_end: "sublist p (u @ p)"
  by (simp add: suffix_imp_sublist suffix_def)

lemma holds_para_after:
  assumes "strip (snd fr) \<noteq> []"
  shows "holds_para (strip (snd fr)) (roll_step pth chunk_size overlap st fr)"
proof -
  have a: "sublist (strip (snd fr)) (cur_text st @ NL # NL # strip (snd fr))"
    using sublist_tail_end [of "strip (snd fr)" "cur_text st @ [NL, NL]"] by simp
  have b: "\<And>u. sublist (strip (snd fr)) (u @ NL # NL # strip (snd fr))"
  proof -
    fix u show "sublist (strip (snd fr)) (u @ NL # NL # strip (snd fr))"
      using sublist_tail_end [of "strip (snd fr)" "u @ [NL, NL]"] by simp
  qed
  show ?thesis
    using assms a b
    by (simp add: roll_step_def Let_def holds_para_def flush_chunk_fields)
qed

lemma holds_para_step:
  assumes h: "holds_para p st" and p: "p = strip x" "p \<noteq> []"
  shows "holds_para p (roll_step pth chunk_size overlap st fr)"
proof (cases "strip (snd fr) = []")
  case True
  then show ?thesis using h by (simp add: roll_step_def)
next
  case False
  have ne: "list_ex (\<lambda>c. sublist p (c_text c)) (chunks st) \<or> cur_text st \<noteq> []"
    using h p(2) by (auto simp: holds_para_def)
  show ?thesis
  proof (cases "int (length (cur_text st)) + 2 + int (length (strip (snd fr))) \<le> chunk_size")
    case True
    have "sublist p (cur_text st) \<Longrightarrow> sublist p (cur_text st @ NL # NL # strip (snd fr))"
      by (rule sublist_append_right)
    then show ?thesis
      using False True h p(2)
      by (auto simp: roll_step_def Let_def holds_para_def)
  next
    case big: False
    show ?thesis
    proof (cases "cur_text st = []")
      case True
      then have "list_ex (\<lambda>c. sublist p (c_text c)) (chunks st)" using ne by simp
      then show ?thesis
        using False big True
        by (simp add: roll_step_def Let_def holds_para_def flush_chunk_fields flush_chunk_Nil)
    next
      case c: False
      have "list_ex (\<lambda>c. sublist p (c_text c))
              (chunks (flush_chunk pth (cur_text st) (cur_heading st) (start_char st)
                 (start_char st + int (length (cur_text st))) st))"
        using h p by (rule holds_para_flush)
      then show ?thesis
        using False big c
        by (simp add: roll_step_def Let_def holds_para_def flush_chunk_fields)
    qed
  qed
qed

lemma roll_contains:
  assumes "fr \<in> set frs" and "strip (snd fr) \<noteq> []"
  shows "\<exists>c\<in>set (roll pth chunk_size overlap frs). sublist (strip (snd fr)) (c_text c)"
proof -
  let ?p = "strip (snd fr)"
  obtain xs ys where frs: "frs = xs @ fr # ys" using assms(1) by (auto dest: split_list)
  let ?s1 = "roll_step pth chunk_size overlap (foldl (roll_step pth chunk_size overlap) roll_init xs) fr"
  let ?st = "foldl (roll_step pth chunk_size overlap) ?s1 ys"
  have "holds_para ?p ?s1" using assms(2) by (rule holds_para_after)
  then have "holds_para ?p ?st"
    by (rule foldl_invariant [where I = "holds_para ?p"]) (simp add: holds_para_step assms(2))
  then have "list_ex (\<lambda>c. sublist ?p (c_text c))
               (chunks (flush_chunk pth (cur_text ?st) (cur_heading ?st) (start_char ?st)
                  (start_char ?st + int (length (cur_text ?st))) ?st))"
    using assms(2) by (intro holds_para_flush [where x = "snd fr"]) simp_all
  then show ?thesis
    by (simp add: roll_def Let_def frs list_ex_iff)
qed


subsection \<open>Fenced blocks stay whole\<close>

lemma join_append:
  "xs \<noteq> [] \<Longrightarrow> ys \<noteq> [] \<Longrightarrow> join sep (xs @ ys) = join sep xs @ sep @ join sep ys"
proof (induction sep xs rule: join.induct)
  case (1 sep)
  then show ?case by simp
next
  case (2 sep x)
  then show ?case by (cases ys) simp_all
next
  case (3 sep x y ys')
  then show ?case by simp
qed

lemma join_sublist:
  assumes "sublist blk ls" and "blk \<noteq> []"
  shows "sublist (join sep blk) (join sep ls)"
proof -
  obtain a b where ls: "ls = a @ blk @ b" using assms(1) by (auto simp: sublist_def)
  have r: "\<exists>v. join sep (blk @ b) = join sep blk @ v"
    using assms(2) by (cases "b = []") (simp_all add: join_append)
  then obtain v where v: "join sep (blk @ b) = join sep blk @ v" by blast
  have "\<exists>u. join sep (a @ blk @ b) = u @ join sep (blk @ b)"
  proof (cases "a = []")
    case True
    then show ?thesis by simp
  next
    case False
    then have "join sep (a @ (blk @ b)) = join sep a @ sep @ join sep (blk @ b)"
      using assms(2) by (intro join_append) simp_all
    then show ?thesis by (metis append.assoc)
  qed
  then obtain u where "join sep (a @ blk @ b) = u @ join sep (blk @ b)" by blast
  then show ?thesis using v ls by (auto simp: sublist_def)
qed

lemma keeps_block_step:
  assumes k: "keeps_block blk st" and ne: "strip (join [NL] blk) \<noteq> []"
  shows "keeps_block blk (para_step st line)"
proof -
  obtain paras buf fl where st: "st = (paras, buf, fl)" by (cases st) auto
  have blk: "blk \<noteq> []"
    using ne by (auto simp: strip_def lstrip_def rstrip_def)
  have grow: "sublist blk buf \<Longrightarrow> sublist blk (buf @ [line])"
    by (metis sublist_append)
  have flush: "sublist blk buf \<Longrightarrow> sublist (strip (join [NL] blk)) (strip (join [NL] buf))"
    using blk ne by (intro sublist_strip join_sublist)
  have nil: "\<not> sublist blk []" using blk by simp
  show ?thesis
    using k grow flush nil unfolding st keeps_block_def
    by (auto simp: list_ex_iff)
qed

lemma block_reaches_buf:
  assumes "even (length (filter is_fence pre))"
    and "is_fence fence_open" and "is_fence fence_close"
    and "\<forall>l\<in>set body. \<not> is_fence l"
  shows "keeps_block (fence_open # body @ [fence_close])
           (foldl para_step ([], [], False) (pre @ fence_open # body @ [fence_close]))"
proof -
  obtain paras buf fl where pre: "foldl para_step ([], [], False) pre = (paras, buf, fl)"
    by (cases "foldl para_step ([], [], False) pre") auto
  have fl: "fl = False"
    using fence_parity [of "[]" "[]" False pre] assms(1) pre by simp
  have "foldl para_step ([], [], False) (pre @ fence_open # body @ [fence_close])
          = para_step (foldl para_step (para_step (paras, buf, False) fence_open) body) fence_close"
    using pre fl by simp
  also have "\<dots> = para_step (foldl para_step (paras, buf @ [fence_open], True) body) fence_close"
    using assms(2) by simp
  also have "\<dots> = para_step (paras, (buf @ [fence_open]) @ body, True) fence_close"
    using assms(4) by (simp add: para_loop_in_fence)
  also have "\<dots> = (paras, buf @ fence_open # body @ [fence_close], False)"
    using assms(3) by simp
  finally show ?thesis
    by (auto simp: keeps_block_def sublist_def)
qed

lemma fenced_block_in_paragraph:
  assumes lines: "splitlines text = pre @ fence_open # body @ fence_close # post"
    and "even (length (filter is_fence pre))"
    and "is_fence fence_open" and "is_fence fence_close"
    and "\<forall>l\<in>set body. \<not> is_fence l"
  shows "\<exists>p\<in>set (split_paragraphs_preserving text).
           sublist (strip (join [NL] (fence_open # body @ [fence_close]))) p"
proof -
  let ?blk = "fence_open # body @ [fence_close]"
  let ?B = "strip (join [NL] ?blk)"
  have ne: "?B \<noteq> []" using assms(3) by (intro strip_join_fence [of fence_open]) simp_all
  have blk: "?blk \<noteq> []" by simp
  let ?s0 = "foldl para_step ([], [], False) (pre @ ?blk)"
  have "keeps_block ?blk ?s0" using assms(2-5) by (rule block_reaches_buf)
  then have "keeps_block ?blk (foldl para_step ?s0 post)"
    by (rule foldl_invariant [where I = "keeps_block ?blk"]) (simp add: keeps_block_step ne)
  moreover have "foldl para_step ?s0 post = foldl para_step ([], [], False) (splitlines text)"
    by (simp add: lines)
  ultimately have k: "keeps_block ?blk (foldl para_step ([], [], False) (splitlines text))"
    by simp
  obtain paras buf fl where st: "foldl para_step ([], [], False) (splitlines text) = (paras, buf, fl)"
    by (cases "foldl para_step ([], [], False) (splitlines text)") auto
  have "sublist ?blk buf \<Longrightarrow> sublist ?B (strip (join [NL] buf))"
    using blk ne by (intro sublist_strip join_sublist)
  moreover have "\<not> sublist ?blk []" by simp
  ultimately have "\<exists>p\<in>set (para_finish (paras, buf, fl)). sublist ?B p"
    using k unfolding st keeps_block_def by (auto simp: list_ex_iff)
  then obtain p where p: "p \<in> set (para_finish (paras, buf, fl))" "sublist ?B p" by blast
  then have "p \<noteq> []" using ne by auto
  then show ?thesis
    using p by (auto simp: split_paragraphs_preserving_def st)
qed

lemma length_par_pos_loop:
  "length (fst (foldl (par_pos_step stripped) (pps, pos) ps)) = length pps + length ps"
proof (induction ps arbitrary: pps pos)
  case Nil
  then show ?case by simp
next
  case (Cons p ps)
  show ?case by (simp add: Let_def Cons.IH)
qed

lemma length_par_positions: "length (par_positions stripped paras) = length paras"
  by (simp add: par_positions_def length_par_pos_loop)

lemma frames_cover:
  assumes "p \<in> set (split_paragraphs_preserving stripped)"
  shows "\<exists>fr\<in>set (frames stripped). snd fr = p"
proof -
  let ?paras = "split_paragraphs_preserving stripped"
  have "map snd (zip (par_positions stripped ?paras) ?paras) = ?paras"
    by (simp add: length_par_positions)
  then have "p \<in> snd ` set (zip (par_positions stripped ?paras) ?paras)"
    using assms by (metis set_map)
  then show ?thesis
    by (force simp: frames_def Let_def)
qed

lemma paragraph_in_one_chunk:
  assumes "p \<in> set (split_paragraphs_preserving (strip_front_matter text))"
  shows "\<exists>c\<in>set (fst (chunk_markdown pth text chunk_size overlap)). sublist p (c_text c)"
proof -
  let ?s = "strip_front_matter text"
  obtain fr where fr: "fr \<in> set (frames ?s)" "snd fr = p"
    using frames_cover [OF assms] by blast
  obtain x where x: "p = strip x" using paragraphs_stripped [of ?s] assms by auto
  have ne: "p \<noteq> []" using assms by (simp add: split_paragraphs_preserving_def)
  have sp: "strip (snd fr) = p" using fr(2) x by (simp add: strip_strip)
  have "\<exists>c\<in>set (roll pth chunk_size overlap (frames ?s)). sublist (strip (snd fr)) (c_text c)"
    using fr(1) sp ne by (intro roll_contains) simp_all
  then show ?thesis using sp by (simp add: chunk_markdown_def Let_def)
qed

text \<open>
  C7. A fenced code block is never split: when the lines of the normalized text hold a
  block from a fence line \<open>fence_open\<close>, reached outside any fence, to the next fence
  line \<open>fence_close\<close>, the block (its lines joined by newlines, trimmed at both ends)
  is a contiguous part of the text of a single chunk, blank lines of its body included.
  This holds for every chunk size and overlap.
\<close>

theorem fenced_block_in_one_chunk:
  assumes "splitlines (strip_front_matter text) = pre @ fence_open # body @ fence_close # post"
    and "even (length (filter is_fence pre))"
    and "is_fence fence_open" and "is_fence fence_close"
    and "\<forall>l\<in>set body. \<not> is_fence l"
  shows "\<exists>c\<in>set (fst (chunk_markdown pth text chunk_size overlap)).
           sublist (strip (join [NL] (fence_open # body @ [fence_close]))) (c_text c)"
proof -
  obtain p where p: "p \<in> set (split_paragraphs_preserving (strip_front_matter text))"
    and b: "sublist (strip (join [NL] (fence_open # body @ [fence_close]))) p"
    using fenced_block_in_paragraph [OF assms] by blast
  obtain c where "c \<in> set (fst (chunk_markdown pth text chunk_size overlap))" "sublist p (c_text c)"
    using paragraph_in_one_chunk [OF p] by blast
  then show ?thesis using b by (meson sublist_order.order_trans)
qed

theorem fenced_block_in_one_chunk_witness:
  "splitlines (strip_front_matter ''a\<newline>\<newline>```\<newline>x\<newline>\<newline>y\<newline>```\<newline>\<newline>b'')
     = [''a'', []] @ ''```'' # [''x'', [], ''y''] @ ''```'' # [[], ''b'']
   \<and> even (length (filter is_fence [''a'', []]))
   \<and> is_fence ''```''
   \<and> \<not> is_fence ''x'' \<and> \<not> is_fence [] \<and> \<not> is_fence ''y''
   \<and> (\<exists>c\<in>set (fst (chunk_markdown \<lparr>path_str = ''book/a.md'', path_stem = ''a''\<rparr>
                       ''a\<newline>\<newline>```\<newline>x\<newline>\<newline>y\<newline>```\<newline>\<newline>b'' 12 0)).
          sublist ''```\<newline>x\<newline>\<newline>y\<newline>```'' (c_text c))"
proof -
  have h1: "splitlines (strip_front_matter ''a\<newline>\<newline>```\<newline>x\<newline>\<newline>y\<newline>```\<newline>\<newline>b'')
     = [''a'', []] @ ''```'' # [''x'', [], ''y''] @ ''```'' # [[], ''b'']"
    by code_simp
  have h2: "even (length (filter is_fence [''a'', []]))" by code_simp
  have h3: "is_fence ''```''" by code_simp
  have h4: "\<forall>l\<in>set [''x'', [], ''y'']. \<not> is_fence l" by code_simp
  have h4': "\<not> is_fence ''x'' \<and> \<not> is_fence [] \<and> \<not> is_fence ''y''"
    using h4 by simp
  have b: "strip (join [NL] (''```'' # [''x'', [], ''y''] @ [''```''])) = ''```\<newline>x\<newline>\<newline>y\<newline>```''"
    by code_simp
  show ?thesis
    using fenced_block_in_one_chunk [OF h1 h2 h3 h3 h4,
        of "\<lparr>path_str = ''book/a.md'', path_stem = ''a''\<rparr>" 12 0]
      h1 h2 h3 h4' unfolding b by simp
qed

subsection \<open>An oversized paragraph has its own chunk\<close>







subsection \<open>The size bound\<close>




subsection \<open>Anchors: what slugify does\<close>

lemma dropWhile_dropWhile_weaker:
  assumes "\<And>x. P x \<Longrightarrow> Q x"
  shows "dropWhile Q (dropWhile P xs) = dropWhile Q xs"
  using assms by (induction xs) auto

lemma hyphen_not_space: "\<not> is_space (CHR ''-'')"
  by (simp add: is_space_def)

lemma collapse_both:
  "sub_runs (\<lambda>c. c = CHR ''-'') ''-'' (sub_runs is_space ''-'' s) = sub_runs is_sep ''-'' s
   \<and> sub_runs (\<lambda>c. c = CHR ''-'') ''-'' (dropWhile (\<lambda>c. c = CHR ''-'') (sub_runs is_space ''-'' s))
       = sub_runs is_sep ''-'' (dropWhile is_sep s)"
proof (induction "length s" arbitrary: s rule: less_induct)
  case less
  show ?case
  proof (cases s)
    case Nil
    then show ?thesis by simp
  next
    case (Cons c cs)
    have d: "dropWhile is_sep (dropWhile is_space cs) = dropWhile is_sep cs"
      by (rule dropWhile_dropWhile_weaker) (simp add: is_sep_def)
    have l1: "length (dropWhile is_space cs) < length s"
      using Cons length_dropWhile_le [of is_space cs] by simp
    have l2: "length cs < length s" using Cons by simp
    note ih1 = less [OF l1]
    note ih2 = less [OF l2]
    show ?thesis
    proof (cases "is_space c")
      case True
      then show ?thesis using Cons ih1 d by (simp add: is_sep_def)
    next
      case ns: False
      show ?thesis
      proof (cases "c = CHR ''-''")
        case True
        then show ?thesis using Cons ns ih2 by (simp add: is_sep_def)
      next
        case False
        then show ?thesis using Cons ns ih2 by (simp add: is_sep_def)
      qed
    qed
  qed
qed

lemma slugify_collapse: "slugify title = sub_runs is_sep ''-'' (filter slug_keep (lower (strip title)))"
  by (simp add: slugify_def Let_def collapse_both)

lemma slugify_as_specified_collapse:
  "slugify_as_specified title = trim_hyphens (sub_runs is_sep ''-'' (filter slug_keep (lower title)))"
  by (simp add: slugify_as_specified_def collapse_both)


lemma collapse_head_kept:
  assumes "s = [] \<or> \<not> is_sep (hd s)"
  shows "dropWhile (\<lambda>c. c = CHR ''-'') (sub_runs is_sep ''-'' s) = sub_runs is_sep ''-'' s"
  using assms by (cases s) (auto simp: is_sep_def)

lemma ltrim_collapse:
  "dropWhile (\<lambda>c. c = CHR ''-'') (sub_runs is_sep ''-'' s) = sub_runs is_sep ''-'' (dropWhile is_sep s)"
proof (cases s)
  case Nil
  then show ?thesis by simp
next
  case (Cons c cs)
  have h: "dropWhile is_sep cs = [] \<or> \<not> is_sep (hd (dropWhile is_sep cs))"
    using hd_dropWhile [of is_sep cs] by blast
  show ?thesis
  proof (cases "is_sep c")
    case True
    then show ?thesis using Cons collapse_head_kept [OF h] by simp
  next
    case False
    then show ?thesis using Cons by (auto simp: is_sep_def)
  qed
qed

lemma rtrim_Cons:
  "rev (dropWhile P (rev (a # x))) =
     (if P a \<and> rev (dropWhile P (rev x)) = [] then [] else a # rev (dropWhile P (rev x)))"
  by (auto simp: dropWhile_append dropWhile_eq_Nil_conv)

lemma rtrim_collapse_append:
  assumes "\<forall>c\<in>set v. is_sep c"
  shows "rev (dropWhile (\<lambda>c. c = CHR ''-'') (rev (sub_runs is_sep ''-'' (s @ v))))
       = rev (dropWhile (\<lambda>c. c = CHR ''-'') (rev (sub_runs is_sep ''-'' s)))"
proof (induction "length s" arbitrary: s rule: less_induct)
  case less
  show ?case
  proof (cases s)
    case Nil
    have "sub_runs is_sep ''-'' v = [] \<or> sub_runs is_sep ''-'' v = ''-''"
    proof (cases v)
      case Nil
      then show ?thesis by simp
    next
      case (Cons a w)
      then have "dropWhile is_sep w = []" using assms by (simp add: dropWhile_eq_Nil_conv)
      then have "sub_runs is_sep ''-'' (dropWhile is_sep w) = []" by (simp only: sub_runs.simps)
      then show ?thesis using Cons assms by simp
    qed
    then show ?thesis using Nil by auto
  next
    case (Cons c cs)
    show ?thesis
    proof (cases "is_sep c")
      case True
      have l: "length (dropWhile is_sep cs) < length s"
        using Cons length_dropWhile_le [of is_sep cs] by simp
      have "\<exists>v'. dropWhile is_sep (cs @ v) = dropWhile is_sep cs @ v' \<and> (v' = v \<or> v' = [])"
      proof (cases "\<forall>x\<in>set cs. is_sep x")
        case True
        have a: "dropWhile is_sep v = []" using assms by (simp add: dropWhile_eq_Nil_conv)
        have b: "dropWhile is_sep cs = []" using True by (simp add: dropWhile_eq_Nil_conv)
        have "dropWhile is_sep (cs @ v) = dropWhile is_sep v"
          using True by (simp add: dropWhile_append)
        then have "dropWhile is_sep (cs @ v) = dropWhile is_sep cs @ []"
          by (simp only: a b append_Nil2)
        then show ?thesis by blast
      next
        case False
        then have "dropWhile is_sep (cs @ v) = dropWhile is_sep cs @ v"
          by (simp only: dropWhile_append if_False)
        then show ?thesis by blast
      qed
      then obtain v' where v': "dropWhile is_sep (cs @ v) = dropWhile is_sep cs @ v'"
        and c: "v' = v \<or> v' = []" by blast
      have ih: "rev (dropWhile (\<lambda>c. c = CHR ''-'') (rev (sub_runs is_sep ''-'' (dropWhile is_sep cs @ v'))))
          = rev (dropWhile (\<lambda>c. c = CHR ''-'') (rev (sub_runs is_sep ''-'' (dropWhile is_sep cs))))"
        using c less [OF l] by auto
      have e1: "sub_runs is_sep ''-'' (s @ v) = CHR ''-'' # sub_runs is_sep ''-'' (dropWhile is_sep cs @ v')"
        using Cons True v' by simp
      have e2: "sub_runs is_sep ''-'' s = CHR ''-'' # sub_runs is_sep ''-'' (dropWhile is_sep cs)"
        using Cons True by simp
      show ?thesis
        unfolding e1 e2 rtrim_Cons ih by (rule refl)
    next
      case False
      have "length cs < length s" using Cons by simp
      then have ih: "rev (dropWhile (\<lambda>c. c = CHR ''-'') (rev (sub_runs is_sep ''-'' (cs @ v))))
          = rev (dropWhile (\<lambda>c. c = CHR ''-'') (rev (sub_runs is_sep ''-'' cs)))"
        by (rule less)
      have e1: "sub_runs is_sep ''-'' (s @ v) = c # sub_runs is_sep ''-'' (cs @ v)"
        using Cons False by simp
      have e2: "sub_runs is_sep ''-'' s = c # sub_runs is_sep ''-'' cs"
        using Cons False by simp
      show ?thesis
        unfolding e1 e2 rtrim_Cons ih by (rule refl)
    qed
  qed
qed


lemma dropWhile_append_all:
  assumes "\<forall>c\<in>set v. P c"
  shows "\<exists>v'. dropWhile P (s @ v) = dropWhile P s @ v' \<and> (\<forall>c\<in>set v'. P c)"
proof (cases "\<forall>x\<in>set s. P x")
  case True
  have a: "dropWhile P v = []" using assms by (simp add: dropWhile_eq_Nil_conv)
  have b: "dropWhile P s = []" using True by (simp add: dropWhile_eq_Nil_conv)
  have "dropWhile P (s @ v) = dropWhile P v" using True by (simp add: dropWhile_append)
  then have "dropWhile P (s @ v) = dropWhile P s @ []" by (simp only: a b append_Nil2)
  then show ?thesis by (metis empty_iff list.set(1))
next
  case False
  then have "dropWhile P (s @ v) = dropWhile P s @ v" by (simp only: dropWhile_append if_False)
  then show ?thesis using assms by blast
qed

lemma trim_collapse_padded:
  assumes u: "\<forall>c\<in>set u. is_sep c" and v: "\<forall>c\<in>set v. is_sep c"
  shows "trim_hyphens (sub_runs is_sep ''-'' (u @ s @ v)) = trim_hyphens (sub_runs is_sep ''-'' s)"
proof -
  have "dropWhile is_sep (u @ s @ v) = dropWhile is_sep (s @ v)"
    using u by (simp add: dropWhile_append)
  moreover obtain v' where v': "dropWhile is_sep (s @ v) = dropWhile is_sep s @ v'"
    and s': "\<forall>c\<in>set v'. is_sep c"
    using dropWhile_append_all [OF v] by blast
  ultimately have "dropWhile (\<lambda>c. c = CHR ''-'') (sub_runs is_sep ''-'' (u @ s @ v))
      = sub_runs is_sep ''-'' (dropWhile is_sep s @ v')"
    by (simp only: ltrim_collapse)
  then have "trim_hyphens (sub_runs is_sep ''-'' (u @ s @ v))
      = rev (dropWhile (\<lambda>c. c = CHR ''-'') (rev (sub_runs is_sep ''-'' (dropWhile is_sep s @ v'))))"
    by (simp only: trim_hyphens_def)
  also have "\<dots> = rev (dropWhile (\<lambda>c. c = CHR ''-'') (rev (sub_runs is_sep ''-'' (dropWhile is_sep s))))"
    using s' by (rule rtrim_collapse_append)
  also have "\<dots> = trim_hyphens (sub_runs is_sep ''-'' s)"
    by (simp only: trim_hyphens_def ltrim_collapse)
  finally show ?thesis .
qed

lemma strip_decomp:
  "\<exists>u v. s = u @ strip s @ v \<and> (\<forall>c\<in>set u. is_space c) \<and> (\<forall>c\<in>set v. is_space c)"
proof -
  let ?u = "takeWhile is_space s"
  let ?v = "rev (takeWhile is_space (rev (lstrip s)))"
  have a: "s = ?u @ lstrip s" by (simp add: lstrip_def)
  have "rev (rev (lstrip s)) = rev (takeWhile is_space (rev (lstrip s)) @ dropWhile is_space (rev (lstrip s)))"
    by (simp only: takeWhile_dropWhile_id)
  then have "lstrip s = rev (dropWhile is_space (rev (lstrip s))) @ ?v"
    by (simp only: rev_append rev_rev_ident)
  then have b: "lstrip s = strip s @ ?v"
    by (simp only: strip_def rstrip_def)
  have "s = ?u @ strip s @ ?v" using a b by simp
  moreover have "\<forall>c\<in>set ?u. is_space c" by (auto dest: set_takeWhileD)
  moreover have "\<forall>c\<in>set ?v. is_space c" by (auto dest: set_takeWhileD)
  ultimately show ?thesis by blast
qed

lemma lower_char_space: "is_space c \<Longrightarrow> lower_char c = c"
  by (auto simp: is_space_def lower_char_def Let_def)

lemma lower_spaces: "\<forall>c\<in>set u. is_space c \<Longrightarrow> lower u = u"
  by (induction u) (simp_all add: lower_def lower_char_space)

lemma keep_spaces: "\<forall>c\<in>set u. is_space c \<Longrightarrow> filter slug_keep u = u"
  by (induction u) (simp_all add: slug_keep_def)

lemma specified_is_trimmed: "slugify_as_specified title = trim_hyphens (slugify title)"
proof -
  obtain u v where t: "title = u @ strip title @ v"
    and u: "\<forall>c\<in>set u. is_space c" and v: "\<forall>c\<in>set v. is_space c"
    using strip_decomp by blast
  have "lower title = lower u @ lower (strip title) @ lower v"
    using t by (metis lower_def map_append)
  then have "filter slug_keep (lower title) = u @ filter slug_keep (lower (strip title)) @ v"
    using u v by (simp add: lower_spaces keep_spaces)
  moreover have "\<forall>c\<in>set u. is_sep c" "\<forall>c\<in>set v. is_sep c"
    using u v by (simp_all add: is_sep_def)
  ultimately show ?thesis
    by (simp add: slugify_as_specified_collapse slugify_collapse trim_collapse_padded)
qed

lemma set_sub_runs: "set (sub_runs P r s) \<subseteq> set r \<union> {c \<in> set s. \<not> P c}"
proof (induction P r s rule: sub_runs.induct)
  case (1 P r)
  then show ?case by simp
next
  case (2 P r c cs)
  then show ?case by (auto dest: set_dropWhileD)
qed

lemma slugify_chars: "c \<in> set (slugify title) \<Longrightarrow> is_word c \<or> c = CHR ''-''"
  using set_sub_runs [of is_sep "''-''" "filter slug_keep (lower (strip title))"]
  by (auto simp: slugify_collapse is_sep_def slug_keep_def)

lemma no_double_hyphen: "\<not> sublist ''--'' (sub_runs is_sep ''-'' s)"
proof (induction "length s" arbitrary: s rule: less_induct)
  case less
  show ?case
  proof (cases s)
    case Nil
    then show ?thesis by simp
  next
    case (Cons c cs)
    show ?thesis
    proof (cases "is_sep c")
      case True
      let ?d = "dropWhile is_sep cs"
      have "length ?d < length s" using Cons length_dropWhile_le [of is_sep cs] by simp
      then have ih: "\<not> sublist ''--'' (sub_runs is_sep ''-'' ?d)" by (rule less)
      have "?d = [] \<or> \<not> is_sep (hd ?d)" using hd_dropWhile [of is_sep cs] by blast
      then have "dropWhile (\<lambda>c. c = CHR ''-'') (sub_runs is_sep ''-'' ?d) = sub_runs is_sep ''-'' ?d"
        by (rule collapse_head_kept)
      then have "\<not> prefix ''-'' (sub_runs is_sep ''-'' ?d)"
      proof (cases "sub_runs is_sep ''-'' ?d")
        case Nil
        then show ?thesis by simp
      next
        case (Cons a w)
        assume k: "dropWhile (\<lambda>c. c = CHR ''-'') (sub_runs is_sep ''-'' ?d) = sub_runs is_sep ''-'' ?d"
        have "a \<noteq> CHR ''-''"
        proof
          assume "a = CHR ''-''"
          then have "dropWhile (\<lambda>c. c = CHR ''-'') w = a # w" using k Cons by simp
          then have "length (a # w) \<le> length w"
            using length_dropWhile_le [of "\<lambda>c. c = CHR ''-''" w] by simp
          then show False by simp
        qed
        then show ?thesis using Cons by simp
      qed
      then show ?thesis
        using Cons True ih by (simp add: sublist_Cons_right)
    next
      case False
      have "length cs < length s" using Cons by simp
      then have "\<not> sublist ''--'' (sub_runs is_sep ''-'' cs)" by (rule less)
      then show ?thesis
        using Cons False by (auto simp: sublist_Cons_right is_sep_def)
    qed
  qed
qed

lemma squeeze_sub_runs:
  "squeeze P False s = sub_runs P ''-'' s \<and> squeeze P True s = sub_runs P ''-'' (dropWhile P s)"
  by (induction s) simp_all

lemma slugify_is_steps: "slugify title = slugify_by_steps title"
proof -
  have "slug_keep = (\<lambda>c. is_word c \<or> is_space c \<or> c = CHR ''-'')"
    by (rule ext) (simp add: slug_keep_def)
  then show ?thesis
    by (simp add: slugify_def slugify_by_steps_def Let_def squeeze_sub_runs)
qed

lemma lower_char_hyphen: "lower_char (CHR ''-'') = CHR ''-''"
  by (simp add: lower_char_def)

lemma slug_keep_hyphen: "slug_keep (CHR ''-'')"
  by (simp add: slug_keep_def)

lemma slugify_leading_hyphen:
  "slugify (CHR ''-'' # t) \<noteq> [] \<and> hd (slugify (CHR ''-'' # t)) = CHR ''-''"
proof -
  have "lstrip (CHR ''-'' # t) = CHR ''-'' # t"
    by (simp add: lstrip_def hyphen_not_space)
  moreover have "rstrip (CHR ''-'' # t) \<noteq> [] \<and> hd (rstrip (CHR ''-'' # t)) = hd (CHR ''-'' # t)"
    by (rule hd_rstrip) (simp_all add: hyphen_not_space)
  ultimately obtain u where u: "strip (CHR ''-'' # t) = CHR ''-'' # u"
    by (cases "rstrip (CHR ''-'' # t)") (auto simp: strip_def)
  show ?thesis
    by (simp add: slugify_collapse u lower_def lower_char_hyphen slug_keep_hyphen is_sep_def)
qed

lemma collapse_last:
  "s \<noteq> [] \<Longrightarrow> is_sep (last s) \<Longrightarrow>
   sub_runs is_sep ''-'' s \<noteq> [] \<and> last (sub_runs is_sep ''-'' s) = CHR ''-''"
proof (induction "length s" arbitrary: s rule: less_induct)
  case less
  obtain c cs where s: "s = c # cs" using less.prems(1) by (cases s) auto
  show ?case
  proof (cases "is_sep c")
    case True
    let ?d = "dropWhile is_sep cs"
    show ?thesis
    proof (cases "?d = []")
      case e: True
      have "sub_runs is_sep ''-'' s = CHR ''-'' # sub_runs is_sep ''-'' ?d"
        using s True by simp
      then show ?thesis by (simp only: e sub_runs.simps) simp
    next
      case ne: False
      have l: "length ?d < length s" using s length_dropWhile_le [of is_sep cs] by simp
      have "cs \<noteq> []" using ne by auto
      then have "last s = last cs" using s by simp
      moreover have "last ?d = last cs"
        using ne by (metis append_self_conv2 last_appendR takeWhile_dropWhile_id)
      ultimately have "is_sep (last ?d)" using less.prems(2) by simp
      then have "sub_runs is_sep ''-'' ?d \<noteq> [] \<and> last (sub_runs is_sep ''-'' ?d) = CHR ''-''"
        using less.hyps [OF l ne] by simp
      then show ?thesis using s True by simp
    qed
  next
    case False
    then have ne: "cs \<noteq> []" using s less.prems(2) by auto
    then have "is_sep (last cs)" using s less.prems(2) by simp
    moreover have "length cs < length s" using s by simp
    ultimately have "sub_runs is_sep ''-'' cs \<noteq> [] \<and> last (sub_runs is_sep ''-'' cs) = CHR ''-''"
      using less.hyps ne by blast
    then show ?thesis using s False by simp
  qed
qed

lemma slugify_trailing_hyphen:
  "slugify (t @ ''-'') \<noteq> [] \<and> last (slugify (t @ ''-'')) = CHR ''-''"
proof -
  have "strip (t @ ''-'') = lstrip t @ ''-''"
    by (rule strip_append_keep) (simp_all add: hyphen_not_space)
  then have "filter slug_keep (lower (strip (t @ ''-''))) = filter slug_keep (lower (lstrip t)) @ ''-''"
    by (simp add: lower_def lower_char_hyphen slug_keep_hyphen)
  then show ?thesis
    using collapse_last [of "filter slug_keep (lower (lstrip t)) @ ''-''"]
    by (simp add: slugify_collapse is_sep_def)
qed

text \<open>
  C8, as the code has it. \<open>slugify\<close> is a function of the title alone, and it performs
  exactly these steps: trim the whitespace around the title, lowercase, strip the
  characters that are neither word characters, whitespace nor hyphen, collapse whitespace
  runs to single hyphens, collapse repeated hyphens. It does not trim leading or trailing
  hyphens: the anchor of a title that starts with a hyphen starts with a hyphen, and the
  anchor of a title that ends with a hyphen ends with one. The anchor holds only word
  characters and hyphens, never two hyphens in a row, and trimming its hyphens gives the
  anchor as the specification words it. The two examples hold.
\<close>

theorem slugify_steps:
  "slugify title = slugify_by_steps title
   \<and> slugify (CHR ''-'' # title) \<noteq> [] \<and> hd (slugify (CHR ''-'' # title)) = CHR ''-''
   \<and> slugify (title @ ''-'') \<noteq> [] \<and> last (slugify (title @ ''-'')) = CHR ''-''
   \<and> slugify ''Hello, World!'' = ''hello-world''
   \<and> slugify ''  Multiple   Spaces  '' = ''multiple-spaces''
   \<and> (\<forall>c\<in>set (slugify title). is_word c \<or> c = CHR ''-'')
   \<and> \<not> sublist ''--'' (slugify title)
   \<and> slugify_as_specified title = trim_hyphens (slugify title)"
proof -
  have a: "slugify ''Hello, World!'' = ''hello-world''" by code_simp
  have b: "slugify ''  Multiple   Spaces  '' = ''multiple-spaces''" by code_simp
  have c: "\<not> sublist ''--'' (slugify title)"
    by (simp only: slugify_collapse no_double_hyphen not_False_eq_True)
  show ?thesis
    using a b c slugify_chars specified_is_trimmed slugify_is_steps
      slugify_leading_hyphen slugify_trailing_hyphen by blast
qed

theorem slugify_steps_witness:
  "slugify ''- A  b!-'' = ''-a-b-''
   \<and> slugify_by_steps ''- A  b!-'' = ''-a-b-''
   \<and> is_word (CHR ''a'')
   \<and> slugify_as_specified ''- A  b!-'' = ''a-b''"
proof -
  have e: "slugify ''- A  b!-'' = ''-a-b-''" by code_simp
  have m: "CHR ''a'' \<in> set (slugify ''- A  b!-'')" unfolding e by simp
  have t: "trim_hyphens ''-a-b-'' = ''a-b''" by code_simp
  have h: "CHR ''a'' \<noteq> CHR ''-''" by simp
  show ?thesis
    using slugify_steps [of "''- A  b!-''"] e m t h by auto
qed

text \<open>
  C8 as stated fails: a hyphen at either end of the anchor is kept, also one that comes
  from a stripped character followed by a space.
\<close>

theorem slugify_keeps_hyphens_counterexample:
  "slugify ''-a-'' = ''-a-'' \<and> slugify_as_specified ''-a-'' = ''a'' \<and> slugify ''! a'' = ''-a''"
  by code_simp

subsection \<open>Neighbor lists for a positive k\<close>

text \<open>
  Once \<open>k\<close> is at least 1 the loops keep at most \<open>k\<close> entries, and with distinct chunk
  ids the fallback loop never keeps the chunk's own id.
\<close>

lemma tfidf_row_cap:
  assumes "tfidf_row ids k i ps neigh = Some r" and "int (length neigh) < k"
  shows "int (length r) \<le> k"
  using assms
proof (induction ps arbitrary: neigh)
  case Nil
  then show ?case by simp
next
  case (Cons a ps)
  obtain j d where a: "a = (j, d)" by (cases a) auto
  show ?case
  proof (cases "j = i")
    case True
    then show ?thesis using Cons a by simp
  next
    case False
    then obtain idj where g: "py_get ids j = Some idj"
      using Cons.prems(1) a by (cases "py_get ids j") simp_all
    show ?thesis
    proof (cases "int (length (neigh @ [(idj, 1 - d)])) \<ge> k")
      case True
      then have "r = neigh @ [(idj, 1 - d)]"
        using Cons.prems(1) a False g by (simp add: Let_def)
      then show ?thesis using Cons.prems(2) by simp
    next
      case nf: False
      then have "tfidf_row ids k i ps (neigh @ [(idj, 1 - d)]) = Some r"
        using Cons.prems(1) a False g by (simp add: Let_def)
      moreover have "int (length (neigh @ [(idj, 1 - d)])) < k" using nf by simp
      ultimately show ?thesis by (rule Cons.IH)
    qed
  qed
qed

lemma tfidf_row_no_self:
  assumes "tfidf_row ids k i ps neigh = Some r"
    and "distinct ids" and "py_get ids i = Some idi" and "0 \<le> i"
    and "\<forall>(j, d)\<in>set ps. 0 \<le> j"
    and "idi \<notin> fst ` set neigh"
  shows "idi \<notin> fst ` set r"
  using assms(1,5,6)
proof (induction ps arbitrary: neigh)
  case Nil
  then show ?case by simp
next
  case (Cons a ps)
  obtain j d where a: "a = (j, d)" by (cases a) auto
  show ?case
  proof (cases "j = i")
    case True
    then show ?thesis using Cons a by simp
  next
    case False
    then obtain idj where g: "py_get ids j = Some idj"
      using Cons.prems(1) a by (cases "py_get ids j") simp_all
    have j0: "0 \<le> j" using Cons.prems(2) a by simp
    have ne: "idj \<noteq> idi"
    proof
      assume e: "idj = idi"
      have "nat j < length ids" "ids ! nat j = idj"
        using g j0 by (auto simp: py_get_def Let_def split: if_splits)
      moreover have "nat i < length ids" "ids ! nat i = idi"
        using assms(3,4) by (auto simp: py_get_def Let_def split: if_splits)
      ultimately have "nat j = nat i" using assms(2) e nth_eq_iff_index_eq by metis
      then show False using False j0 assms(4) by simp
    qed
    have n': "idi \<notin> fst ` set (neigh @ [(idj, 1 - d)])"
      using Cons.prems(3) ne by auto
    show ?thesis
    proof (cases "int (length (neigh @ [(idj, 1 - d)])) \<ge> k")
      case True
      then have "r = neigh @ [(idj, 1 - d)]"
        using Cons.prems(1) a False g by (simp add: Let_def)
      then show ?thesis using n' by simp
    next
      case nf: False
      then have "tfidf_row ids k i ps (neigh @ [(idj, 1 - d)]) = Some r"
        using Cons.prems(1) a False g by (simp add: Let_def)
      moreover have "\<forall>(j, d)\<in>set ps. 0 \<le> j" using Cons.prems(2) by simp
      ultimately show ?thesis using n' by (rule Cons.IH)
    qed
  qed
qed

lemma nn_row_cap:
  "int (length neigh) < kk \<Longrightarrow> int (length (nn_row kk i ps neigh)) \<le> kk"
proof (induction ps arbitrary: neigh)
  case Nil
  then show ?case by simp
next
  case (Cons a ps)
  obtain j d where a: "a = (j, d)" by (cases a) auto
  show ?case
    using Cons.prems Cons.IH [of neigh] Cons.IH [of "neigh @ [(j, 1 - d)]"] a
    by (auto simp: Let_def)
qed

lemma faiss_row_cap:
  "int (length neigh) < kk \<Longrightarrow> int (length (faiss_row kk i ps neigh)) \<le> kk"
proof (induction ps arbitrary: neigh)
  case Nil
  then show ?case by simp
next
  case (Cons a ps)
  obtain j d where a: "a = (j, d)" by (cases a) auto
  show ?case
    using Cons.prems Cons.IH [of neigh] Cons.IH [of "neigh @ [(j, d)]"] a
    by (auto simp: Let_def)
qed

end
